theory Spec2Isabelle
  imports Main
begin

section \<open>JavaScript values\<close>

text \<open>
  The values that reach the detector from its callers: the \<open>text\<close> argument of every
  entry point and the values of the \<open>context\<close> object.  Strings are sequences of code
  units; the model keeps the code units 0 to 255 (\<open>char\<close>).  Numbers are the integers
  and \<open>NaN\<close>; an object is known by its reference only.
\<close>

datatype jsval =
    VUndef
  | VNull
  | VBool bool
  | VNum int
  | VNaN
  | VStr string
  | VObj nat

text \<open>\<open>a === b\<close>: \<open>NaN\<close> equals nothing, objects are equal by reference.\<close>

definition strict_eq :: "jsval \<Rightarrow> jsval \<Rightarrow> bool" where
  "strict_eq a b = (a = b \<and> a \<noteq> VNaN)"

text \<open>\<open>!v\<close> is true for the falsy values.\<close>

fun falsy :: "jsval \<Rightarrow> bool" where
  "falsy VUndef = True"
| "falsy VNull = True"
| "falsy (VBool b) = (\<not> b)"
| "falsy (VNum n) = (n = 0)"
| "falsy VNaN = True"
| "falsy (VStr s) = (s = [])"
| "falsy (VObj r) = False"

fun is_string :: "jsval \<Rightarrow> bool" where
  "is_string (VStr s) = True"
| "is_string v = False"

fun digit_char :: "nat \<Rightarrow> char" where
  "digit_char n = char_of (48 + n)"

fun dec_nat :: "nat \<Rightarrow> string" where
  "dec_nat n = (if n < 10 then [digit_char n] else dec_nat (n div 10) @ [digit_char (n mod 10)])"

declare dec_nat.simps [simp del]

text \<open>\<open>String(v)\<close> as \<open>Array.prototype.join\<close> applies it: \<open>undefined\<close> and \<open>null\<close>
  give the empty string; an object is a plain object.\<close>

fun join_str :: "jsval \<Rightarrow> string" where
  "join_str VUndef = []"
| "join_str VNull = []"
| "join_str (VBool b) = (if b then ''true'' else ''false'')"
| "join_str (VNum n) = (if n < 0 then ''-'' @ dec_nat (nat (- n)) else dec_nat (nat n))"
| "join_str VNaN = ''NaN''"
| "join_str (VStr s) = s"
| "join_str (VObj r) = ''[object Object]''"

section \<open>Regular expressions\<close>

text \<open>
  The pattern language of the rule table, with the ECMAScript backtracking semantics.
  A cursor is a position in the input during a match: the number of code units consumed
  since the start of the match, the code unit before the position, if any, and the input
  from the position on.  \<open>ends r ic ml cur\<close> lists the cursors at which a match of \<open>r\<close>
  started at \<open>cur\<close> can end, in the order in which the backtracking matcher tries them;
  the match that the engine reports is the first.  \<open>ic\<close> and \<open>ml\<close> are the flags
  \<open>i\<close> and \<open>m\<close>.  The table has no back reference, so the captures play no part.
\<close>

type_synonym cursor = "nat \<times> char option \<times> string"

datatype citem = Ch char | Rng char char | Space

datatype rx =
    Str string
  | Cls "citem list"
  | NCls "citem list"
  | Dot
  | Seq rx rx
  | Alt rx rx
  | Rep rx nat "nat option"
  | Ahead rx
  | WordB
  | Bol
  | Eol

definition code :: "char \<Rightarrow> int" where
  "code c = of_char c"

definition between :: "int \<Rightarrow> int \<Rightarrow> int \<Rightarrow> bool" where
  "between lo hi n = (if lo \<le> n then n \<le> hi else False)"

text \<open>\<open>\s\<close>: the white space and line terminator code units below 256.\<close>

definition is_space :: "char \<Rightarrow> bool" where
  "is_space c = (let n = code c in if between 9 13 n then True else if n = 32 then True else n = 160)"

definition is_line_terminator :: "char \<Rightarrow> bool" where
  "is_line_terminator c = (let n = code c in if n = 10 then True else n = 13)"

definition is_word_char :: "char \<Rightarrow> bool" where
  "is_word_char c = (let n = code c in
     if between 97 122 n then True else if between 65 90 n then True
     else if between 48 57 n then True else n = 95)"

text \<open>
  Two code units have the same canonical form under the \<open>i\<close> flag when they are equal
  or when one is the \<open>swap_case\<close> of the other: the other member of the case pair of a
  letter, which differs from it in bit 5.
\<close>

definition is_cased :: "char \<Rightarrow> bool" where
  "is_cased c = (let n = code c in
     if between 97 122 n then True else if between 65 90 n then True
     else if between 192 222 n then n \<noteq> 215
     else if between 224 254 n then n \<noteq> 247 else False)"

definition swap_case :: "char \<Rightarrow> char" where
  "swap_case c =
     (if is_cased c
      then (case c of Char b0 b1 b2 b3 b4 b5 b6 b7 \<Rightarrow> Char b0 b1 b2 b3 b4 (\<not> b5) b6 b7)
      else c)"

definition same_char :: "bool \<Rightarrow> char \<Rightarrow> char \<Rightarrow> bool" where
  "same_char ic a c = (if a = c then True else if ic then swap_case a = c else False)"

fun item_has :: "citem \<Rightarrow> char \<Rightarrow> bool" where
  "item_has (Ch a) c = (a = c)"
| "item_has (Rng a b) c = between (code a) (code b) (code c)"
| "item_has Space c = is_space c"

fun in_items :: "citem list \<Rightarrow> char \<Rightarrow> bool" where
  "in_items [] c = False"
| "in_items (i # is) c = (if item_has i c then True else in_items is c)"

definition in_class :: "bool \<Rightarrow> citem list \<Rightarrow> char \<Rightarrow> bool" where
  "in_class ic A c = (if in_items A c then True else if ic then in_items A (swap_case c) else False)"

fun lit :: "bool \<Rightarrow> string \<Rightarrow> cursor \<Rightarrow> cursor option" where
  "lit ic [] cur = Some cur"
| "lit ic (a # as) (n, p, []) = None"
| "lit ic (a # as) (n, p, c # cs) = (if same_char ic a c then lit ic as (Suc n, Some c, cs) else None)"

text \<open>
  A greedy quantifier \<open>{mn,mx}\<close> over the matcher \<open>f\<close> of its body, as the standard's
  RepeatMatcher: the body is tried first, then the rest of the pattern without it, and
  once the minimum is reached an iteration that consumes nothing is rejected.  The body
  is run from the count 0, so that \<open>k\<close> is what the iteration consumed.  \<open>fuel\<close> is the
  input at the start of the quantifier: every iteration beyond the minimum consumes a
  code unit of it.
\<close>

function rep :: "(cursor \<Rightarrow> cursor list) \<Rightarrow> nat \<Rightarrow> nat option \<Rightarrow> string \<Rightarrow> cursor \<Rightarrow> cursor list"
  and rep_each :: "(cursor \<Rightarrow> cursor list) \<Rightarrow> nat \<Rightarrow> nat option \<Rightarrow> string \<Rightarrow> nat \<Rightarrow> cursor list \<Rightarrow> cursor list"
where
  "rep f mn mx fuel cur =
     (if mx = Some 0 then [cur]
      else if mn \<noteq> 0 then rep_each f mn mx fuel (fst cur) (f (0, snd cur))
      else rep_each f mn mx fuel (fst cur) (f (0, snd cur)) @ [cur])"
| "rep_each f mn mx fuel n [] = []"
| "rep_each f mn mx fuel n ((k, c) # cs) =
     (if mn \<noteq> 0 then rep f (mn - 1) (map_option (\<lambda>m. m - 1) mx) fuel (k + n, c)
      else if k = 0 then []
      else (case fuel of [] \<Rightarrow> [] | u # fuel' \<Rightarrow> rep f 0 (map_option (\<lambda>m. m - 1) mx) fuel' (k + n, c)))
     @ rep_each f mn mx fuel n cs"
  by pat_completeness auto
termination
  by (relation "inv_image (less_than <*lex*> less_than <*lex*> less_than)
        (\<lambda>x. case x of
           Inl (f, mn, mx, fuel, cur) \<Rightarrow> (mn + length fuel, 1, 0)
         | Inr (f, mn, mx, fuel, n, cs) \<Rightarrow> (mn + length fuel, 0, length cs))")
     auto

declare rep.simps [simp del]

primrec ends :: "rx \<Rightarrow> bool \<Rightarrow> bool \<Rightarrow> cursor \<Rightarrow> cursor list" where
  "ends (Str s) ic ml cur = (case lit ic s cur of None \<Rightarrow> [] | Some c \<Rightarrow> [c])"
| "ends (Cls A) ic ml cur =
     (case snd (snd cur) of [] \<Rightarrow> []
      | c # cs \<Rightarrow> if in_class ic A c then [(Suc (fst cur), Some c, cs)] else [])"
| "ends (NCls A) ic ml cur =
     (case snd (snd cur) of [] \<Rightarrow> []
      | c # cs \<Rightarrow> if in_class ic A c then [] else [(Suc (fst cur), Some c, cs)])"
| "ends Dot ic ml cur =
     (case snd (snd cur) of [] \<Rightarrow> []
      | c # cs \<Rightarrow> if is_line_terminator c then [] else [(Suc (fst cur), Some c, cs)])"
| "ends (Seq a b) ic ml cur = concat (map (ends b ic ml) (ends a ic ml cur))"
| "ends (Alt a b) ic ml cur = ends a ic ml cur @ ends b ic ml cur"
| "ends (Rep r mn mx) ic ml cur = rep (ends r ic ml) mn mx (snd (snd cur)) cur"
| "ends (Ahead r) ic ml cur = (case ends r ic ml cur of [] \<Rightarrow> [] | c # cs \<Rightarrow> [cur])"
| "ends WordB ic ml cur =
     (let a = (case fst (snd cur) of None \<Rightarrow> False | Some c \<Rightarrow> is_word_char c);
          b = (case snd (snd cur) of [] \<Rightarrow> False | c # cs \<Rightarrow> is_word_char c)
      in if a \<noteq> b then [cur] else [])"
| "ends Bol ic ml cur =
     (case fst (snd cur) of None \<Rightarrow> [cur]
      | Some c \<Rightarrow> if ml then (if is_line_terminator c then [cur] else []) else [])"
| "ends Eol ic ml cur =
     (case snd (snd cur) of [] \<Rightarrow> [cur]
      | c # cs \<Rightarrow> if ml then (if is_line_terminator c then [cur] else []) else [])"

section \<open>RegExp objects\<close>

text \<open>
  A RegExp object: its compiled pattern, its \<open>g\<close> flag and its mutable search cursor
  \<open>lastIndex\<close>.  The compiled pattern is given the input before the position, latest
  code unit first, and the input from the position on, and returns the length of the
  match that starts there; the \<open>i\<close> and \<open>m\<close> flags are compiled into it.
\<close>

record regexp =
  matcher :: "string \<Rightarrow> string \<Rightarrow> nat option"
  global :: bool
  lastIndex :: nat

definition compile :: "rx \<Rightarrow> bool \<Rightarrow> bool \<Rightarrow> string \<Rightarrow> string \<Rightarrow> nat option" where
  "compile r ic ml bef rest =
     (case ends r ic ml (0, (case bef of [] \<Rightarrow> None | c # cs \<Rightarrow> Some c), rest) of
        [] \<Rightarrow> None
      | c # cs \<Rightarrow> Some (fst c))"

definition re :: "rx \<Rightarrow> string \<Rightarrow> regexp" where
  "re r flags =
     \<lparr> matcher = compile r (CHR ''i'' \<in> set flags) (CHR ''m'' \<in> set flags),
       global = (CHR ''g'' \<in> set flags),
       lastIndex = 0 \<rparr>"

text \<open>The search of RegExpBuiltinExec: the first position from \<open>i\<close> on at which the
  pattern matches, with the matched text.\<close>

fun find_first :: "(string \<Rightarrow> string \<Rightarrow> nat option) \<Rightarrow> string \<Rightarrow> string \<Rightarrow> nat \<Rightarrow> (nat \<times> string) option" where
  "find_first m bef [] i = (case m bef [] of Some l \<Rightarrow> Some (i, []) | None \<Rightarrow> None)"
| "find_first m bef (c # cs) i =
     (case m bef (c # cs) of
        Some l \<Rightarrow> Some (i, take l (c # cs))
      | None \<Rightarrow> find_first m (c # bef) cs (Suc i))"

text \<open>
  \<open>regex.exec(S)\<close>: the result (\<open>null\<close> is \<open>None\<close>, otherwise \<open>match.index\<close> and
  \<open>match[0]\<close>) and the object afterwards.  Without the \<open>g\<close> flag the search starts at 0
  and \<open>lastIndex\<close> is not written.
\<close>

definition exec :: "regexp \<Rightarrow> string \<Rightarrow> (nat \<times> string) option \<times> regexp" where
  "exec R S =
     (let L = (if global R then lastIndex R else 0) in
      if L > length S then (None, if global R then R\<lparr>lastIndex := 0\<rparr> else R)
      else (case find_first (matcher R) (rev (take L S)) (drop L S) L of
              None \<Rightarrow> (None, if global R then R\<lparr>lastIndex := 0\<rparr> else R)
            | Some (i, v) \<Rightarrow> (Some (i, v), if global R then R\<lparr>lastIndex := i + length v\<rparr> else R)))"

section \<open>The rule table\<close>

record pattern =
  name :: string
  regex :: regexp
  severity :: string

definition cat :: "rx list \<Rightarrow> rx" where
  "cat rs = foldr Seq rs (Str [])"

fun alts :: "rx list \<Rightarrow> rx" where
  "alts [] = Str []"
| "alts [r] = r"
| "alts (r # rs) = Alt r (alts rs)"

definition opt :: "rx \<Rightarrow> rx" where "opt r = Rep r 0 (Some 1)"
definition star :: "rx \<Rightarrow> rx" where "star r = Rep r 0 None"
definition plus :: "rx \<Rightarrow> rx" where "plus r = Rep r 1 None"

definition lower :: citem where "lower = Rng CHR ''a'' CHR ''z''"
definition upper :: citem where "upper = Rng CHR ''A'' CHR ''Z''"
definition digit :: citem where "digit = Rng CHR ''0'' CHR ''9''"
definition hexl :: "citem list" where "hexl = [Rng CHR ''a'' CHR ''f'', digit]"
definition alnum :: "citem list" where "alnum = [lower, upper, digit]"
definition token :: "citem list" where "token = [lower, upper, digit, Ch CHR ''_'', Ch CHR ''-'']"
definition quote :: "citem list" where "quote = [Ch (CHR 0x22), Ch (CHR 0x27)]"
definition ws :: rx where "ws = Cls [Space]"
definition copula :: rx where "copula = alts [Str ''is'', Str ''was'', Str ''='', Str '':'']"

definition builtin_patterns :: "pattern list" where
  "builtin_patterns =
   [ \<lparr> name = ''openrouter_key'',
       regex = re (cat [Str ''sk-or-v1-'', Rep (Cls hexl) 64 (Some 64)]) ''g'',
       severity = ''CRITICAL'' \<rparr>,
     \<lparr> name = ''anthropic_key'',
       regex = re (cat [Str ''sk-ant-'', Rep (Cls token) 80 None]) ''g'',
       severity = ''CRITICAL'' \<rparr>,
     \<lparr> name = ''perplexity_key'',
       regex = re (cat [Str ''pplx-'', Rep (Cls alnum) 30 None]) ''g'',
       severity = ''CRITICAL'' \<rparr>,
     \<lparr> name = ''xai_key'',
       regex = re (cat [Str ''xai-'', Rep (Cls alnum) 20 None]) ''g'',
       severity = ''CRITICAL'' \<rparr>,
     \<lparr> name = ''replicate_token'',
       regex = re (cat [Str ''r8_'', Rep (Cls alnum) 36 (Some 36)]) ''g'',
       severity = ''CRITICAL'' \<rparr>,
     \<lparr> name = ''openai_key'',
       regex = re (cat [Str ''sk-'', opt (Str ''proj-''), Rep (Cls token) 48 None]) ''g'',
       severity = ''CRITICAL'' \<rparr>,
     \<lparr> name = ''elevenlabs_key'',
       regex = re (cat [Rep (Cls hexl) 32 (Some 32), Ahead (cat [star Dot, Str ''elevenlabs''])]) ''gi'',
       severity = ''CRITICAL'' \<rparr>,
     \<lparr> name = ''resend_key'',
       regex = re (cat [WordB, Str ''re_'', Rep (Cls [lower, upper, digit, Ch CHR ''_'']) 20 None, WordB]) ''g'',
       severity = ''CRITICAL'' \<rparr>,
     \<lparr> name = ''telegram_bot_token'',
       regex = re (cat [Rep (Cls [digit]) 8 (Some 10), Str '':'', Rep (Cls token) 35 (Some 35)]) ''g'',
       severity = ''CRITICAL'' \<rparr>,
     \<lparr> name = ''stripe_secret_key'',
       regex = re (cat [Cls [Ch CHR ''s'', Ch CHR ''r''], Str ''k_'', alts [Str ''live'', Str ''test''],
                        Str ''_'', Rep (Cls alnum) 20 None]) ''g'',
       severity = ''CRITICAL'' \<rparr>,
     \<lparr> name = ''google_oauth'',
       regex = re (cat [Str ''ya29.'', Rep (Cls token) 50 None]) ''g'',
       severity = ''CRITICAL'' \<rparr>,
     \<lparr> name = ''google_refresh'',
       regex = re (cat [Str ''1//'', Rep (Cls token) 40 None]) ''g'',
       severity = ''CRITICAL'' \<rparr>,
     \<lparr> name = ''github_token'',
       regex = re (cat [Str ''gh'', Cls [Ch CHR ''p'', Ch CHR ''s''], Str ''_'', Rep (Cls alnum) 36 None]) ''g'',
       severity = ''CRITICAL'' \<rparr>,
     \<lparr> name = ''tailscale_key'',
       regex = re (cat [Str ''tskey-'', plus (Cls alnum), Str ''-'', plus (Cls alnum)]) ''g'',
       severity = ''CRITICAL'' \<rparr>,
     \<lparr> name = ''bearer_token'',
       regex = re (cat [Str ''Bearer'', plus ws,
                        Rep (Cls [lower, upper, digit, Ch CHR ''_'', Ch CHR ''.'', Ch CHR ''-'']) 20 None]) ''g'',
       severity = ''HIGH'' \<rparr>,
     \<lparr> name = ''basic_auth'',
       regex = re (cat [Str ''Basic'', plus ws,
                        Rep (Cls [upper, lower, digit, Ch CHR ''+'', Ch CHR ''/'', Ch CHR ''='']) 20 None]) ''g'',
       severity = ''HIGH'' \<rparr>,
     \<lparr> name = ''api_key_assignment'',
       regex = re (cat [alts [cat [Str ''api'', opt (Cls [Ch CHR ''_'', Ch CHR ''-'']), Str ''key''],
                              Str ''apikey'', Str ''api_secret'', Str ''apisecret''],
                        star ws, Cls [Ch CHR ''='', Ch CHR '':''], star ws,
                        opt (Cls quote), Rep (Cls token) 16 None, opt (Cls quote)]) ''gi'',
       severity = ''HIGH'' \<rparr>,
     \<lparr> name = ''private_key'',
       regex = re (cat [Str ''-----BEGIN'', plus ws,
                        opt (alts [cat [Str ''RSA'', plus ws], cat [Str ''EC'', plus ws],
                                   cat [Str ''OPENSSH'', plus ws]]),
                        Str ''PRIVATE'', plus ws, Str ''KEY-----'']) ''g'',
       severity = ''CRITICAL'' \<rparr>,
     \<lparr> name = ''age_secret_key'',
       regex = re (cat [Str ''AGE-SECRET-KEY-'', Rep (Cls [upper, digit]) 59 (Some 59)]) ''g'',
       severity = ''CRITICAL'' \<rparr>,
     \<lparr> name = ''connection_string'',
       regex = re (cat [alts [Str ''mongodb'', Str ''postgres'', Str ''mysql'', Str ''redis''],
                        Str ''://'', Rep (NCls (Space # quote)) 10 None]) ''gi'',
       severity = ''HIGH'' \<rparr>,
     \<lparr> name = ''password_assignment'',
       regex = re (cat [alts [Str ''password'', Str ''passwd'', Str ''pwd''],
                        star ws, copula, star ws,
                        opt (Cls quote), Rep (NCls (Space # quote)) 8 None, opt (Cls quote)]) ''gi'',
       severity = ''MEDIUM'' \<rparr>,
     \<lparr> name = ''secret_assignment'',
       regex = re (cat [alts [Str ''secret'', Str ''token'', Str ''credential''],
                        star ws, copula, star ws,
                        opt (Cls quote), Rep (Cls token) 16 None, opt (Cls quote)]) ''gi'',
       severity = ''MEDIUM'' \<rparr>,
     \<lparr> name = ''env_var_dump'',
       regex = re (cat [Bol, Rep (Cls [upper, Ch CHR ''_'']) 4 None, Str ''='', Rep Dot 10 None, Eol]) ''gm'',
       severity = ''MEDIUM'' \<rparr>,
     \<lparr> name = ''hex_secret'',
       regex = re (cat [Cls quote, Rep (Cls hexl) 32 None, Cls quote]) ''g'',
       severity = ''LOW'' \<rparr> ]"

text \<open>The constructor: the caller's rules follow the built-in ones.  The state of a
  detector is its rule list, each rule with the search cursor of its RegExp object.\<close>

definition LeakDetector :: "pattern list \<Rightarrow> pattern list" where
  "LeakDetector customPatterns = builtin_patterns @ customPatterns"

section \<open>Strings\<close>

text \<open>\<open>GetSubstitution\<close> for a replacement template when the pattern is a string: there
  are no captures, so only \<open>$$\<close>, \<open>$&\<close>, the text before and the text after the match
  are special.\<close>

fun get_substitution :: "string \<Rightarrow> string \<Rightarrow> string \<Rightarrow> string \<Rightarrow> string" where
  "get_substitution m b a [] = []"
| "get_substitution m b a [c] = [c]"
| "get_substitution m b a (c # d # t) =
     (if c = CHR ''$'' then
        (if d = CHR ''$'' then CHR ''$'' # get_substitution m b a t
         else if d = CHR ''&'' then m @ get_substitution m b a t
         else if d = CHR 0x60 then b @ get_substitution m b a t
         else if d = CHR 0x27 then a @ get_substitution m b a t
         else c # get_substitution m b a (d # t))
      else c # get_substitution m b a (d # t))"

fun starts_with :: "string \<Rightarrow> string \<Rightarrow> bool" where
  "starts_with [] hay = True"
| "starts_with (a # as) [] = False"
| "starts_with (a # as) (c # cs) = (if a = c then starts_with as cs else False)"

text \<open>\<open>S.replace(needle, template)\<close> with a string \<open>needle\<close>: the first occurrence only.\<close>

fun replace_from :: "string \<Rightarrow> string \<Rightarrow> string \<Rightarrow> string \<Rightarrow> string" where
  "replace_from needle template bef [] =
     (if needle = [] then rev bef @ get_substitution [] (rev bef) [] template else rev bef)"
| "replace_from needle template bef (c # cs) =
     (if starts_with needle (c # cs)
      then rev bef @ get_substitution needle (rev bef) (drop (length needle) (c # cs)) template
           @ drop (length needle) (c # cs)
      else replace_from needle template (c # bef) cs)"

definition replace_str :: "string \<Rightarrow> string \<Rightarrow> string \<Rightarrow> string" where
  "replace_str S needle template = replace_from needle template [] S"

fun join :: "string \<Rightarrow> string list \<Rightarrow> string" where
  "join sep [] = []"
| "join sep [x] = x"
| "join sep (x # y # ys) = x @ sep @ join sep (y # ys)"

text \<open>The elements of \<open>new Set(xs)\<close> in insertion order.\<close>

fun set_values :: "jsval list \<Rightarrow> jsval list \<Rightarrow> jsval list" where
  "set_values seen [] = seen"
| "set_values seen (x # xs) = set_values (if x \<in> set seen then seen else seen @ [x]) xs"

text \<open>\<open>arr.findIndex(P)\<close>.\<close>

fun findIndex :: "('a \<Rightarrow> bool) \<Rightarrow> 'a list \<Rightarrow> int" where
  "findIndex P [] = - 1"
| "findIndex P (x # xs) =
     (if P x then 0 else (let k = findIndex P xs in if k < 0 then - 1 else k + 1))"

section \<open>scan\<close>

text \<open>A Match object: its properties by name.\<close>

type_synonym match = "string \<rightharpoonup> jsval"

definition get_prop :: "match \<Rightarrow> string \<Rightarrow> jsval" where
  "get_prop m k = (case m k of None \<Rightarrow> VUndef | Some v \<Rightarrow> v)"

record scan_result =
  leaked :: bool
  matches :: "match list"
  redacted :: jsval
  summary :: "string option"

fun the_string :: "jsval \<Rightarrow> string" where
  "the_string (VStr s) = s"
| "the_string v = []"

definition last4 :: "string \<Rightarrow> string" where
  "last4 v = drop (length v - 4) v"

definition preview_of :: "string \<Rightarrow> string" where
  "preview_of v =
     (if length v > 12
      then take 4 v @ ''...[REDACTED '' @ dec_nat (length v - 8) @ '' chars]...'' @ last4 v
      else ''[REDACTED]'')"

text \<open>The object literal pushed by \<open>scan\<close>: the seven standard properties, then the
  spread of \<open>context\<close>, which is written last.\<close>

definition standard_match :: "pattern \<Rightarrow> nat \<Rightarrow> string \<Rightarrow> string \<Rightarrow> string \<Rightarrow> match" where
  "standard_match p i v scanPoint now =
     [''pattern'' \<mapsto> VStr (name p),
      ''severity'' \<mapsto> VStr (severity p),
      ''position'' \<mapsto> VNum (int i),
      ''length'' \<mapsto> VNum (int (length v)),
      ''preview'' \<mapsto> VStr (preview_of v),
      ''scanPoint'' \<mapsto> VStr scanPoint,
      ''timestamp'' \<mapsto> VStr now]"

definition new_match :: "pattern \<Rightarrow> nat \<Rightarrow> string \<Rightarrow> string \<Rightarrow> string \<Rightarrow> (string \<rightharpoonup> jsval) \<Rightarrow> match" where
  "new_match p i v scanPoint now context = standard_match p i v scanPoint now ++ context"

text \<open>The body of the \<open>while\<close> loop of \<open>scan\<close> for the match \<open>v\<close> at index \<open>i\<close>.
  \<open>acc\<close> is \<open>matches\<close> and \<open>redacted\<close>; \<open>clock k\<close> is what the \<open>k\<close>-th
  \<open>new Date().toISOString()\<close> of the call returns.  (\<open>redactedValue\<close> is computed
  and not used.)\<close>

definition scan_body :: "pattern \<Rightarrow> nat \<Rightarrow> string \<Rightarrow> string \<Rightarrow> (string \<rightharpoonup> jsval) \<Rightarrow> (nat \<Rightarrow> string)
    \<Rightarrow> match list \<times> string \<Rightarrow> match list \<times> string" where
  "scan_body p i v scanPoint context clock acc =
     (if length v < 12 then acc
      else (fst acc @ [new_match p i v scanPoint (clock (length (fst acc))) context],
            replace_str (snd acc) v (''[LEAK_REDACTED:'' @ name p @ '']'')))"

text \<open>
  The \<open>while\<close> loop of \<open>scan\<close> for one rule, from the state \<open>R\<close> of its RegExp object.
  When \<open>exec\<close> finds a match and leaves the RegExp object as it was (no \<open>g\<close> flag, or
  an empty match at \<open>lastIndex\<close>), the next iteration is the same as this one and the
  loop never ends: the result is \<open>None\<close>.
\<close>

function scan_while :: "pattern \<Rightarrow> string \<Rightarrow> string \<Rightarrow> (string \<rightharpoonup> jsval) \<Rightarrow> (nat \<Rightarrow> string)
    \<Rightarrow> regexp \<Rightarrow> match list \<times> string \<Rightarrow> ((match list \<times> string) \<times> regexp) option" where
  "scan_while p text scanPoint context clock R acc =
     (case exec R text of
        (None, R') \<Rightarrow> Some (acc, R')
      | (Some (i, v), R') \<Rightarrow>
          if global R \<and> lastIndex R < lastIndex R'
          then scan_while p text scanPoint context clock R' (scan_body p i v scanPoint context clock acc)
          else None)"
  by pat_completeness auto
termination
proof -
  have ff: "find_first m bef rest i = Some (j, v) \<Longrightarrow> j + length v \<le> i + length rest"
    for m :: "string \<Rightarrow> string \<Rightarrow> nat option" and bef and rest and i and j and v
    by (induction rest arbitrary: bef i) (fastforce split: option.splits)+
  have ex: "exec R S = (Some (i, v), R') \<Longrightarrow> global R \<Longrightarrow> lastIndex R' \<le> length S"
    for R S i v R'
    by (auto simp: exec_def Let_def split: if_splits option.splits dest!: ff)
  have step: "(Some (i, v), R') = exec R S \<Longrightarrow> global R \<Longrightarrow> lastIndex R < lastIndex R'
      \<Longrightarrow> Suc (length S) - lastIndex R' < Suc (length S) - lastIndex R"
    for R S i v R'
    using ex [of R S i v R'] by auto
  show ?thesis
    by (relation "measure (\<lambda>(p, text, scanPoint, context, clock, R, acc). Suc (length text) - lastIndex R)")
       (use step in auto)
qed

declare scan_while.simps [simp del]

text \<open>The \<open>for\<close> loop over \<open>this.patterns\<close>: each rule's cursor is reset, then its
  \<open>while\<close> loop runs.  The rules are returned with their RegExp objects as the call
  leaves them.\<close>

fun scan_for :: "pattern list \<Rightarrow> string \<Rightarrow> string \<Rightarrow> (string \<rightharpoonup> jsval) \<Rightarrow> (nat \<Rightarrow> string)
    \<Rightarrow> match list \<times> string \<Rightarrow> ((match list \<times> string) \<times> pattern list) option" where
  "scan_for [] text scanPoint context clock acc = Some (acc, [])"
| "scan_for (p # ps) text scanPoint context clock acc =
     (case scan_while p text scanPoint context clock ((regex p)\<lparr>lastIndex := 0\<rparr>) acc of
        None \<Rightarrow> None
      | Some (acc', R') \<Rightarrow>
          (case scan_for ps text scanPoint context clock acc' of
             None \<Rightarrow> None
           | Some (acc'', ps') \<Rightarrow> Some (acc'', p\<lparr>regex := R'\<rparr> # ps')))"

definition same_key :: "match \<Rightarrow> match \<Rightarrow> bool" where
  "same_key m x =
     (strict_eq (get_prop x ''pattern'') (get_prop m ''pattern'') \<and>
      strict_eq (get_prop x ''position'') (get_prop m ''position''))"

definition unique_matches :: "match list \<Rightarrow> match list" where
  "unique_matches arr =
     map snd (filter (\<lambda>(i, m). findIndex (same_key m) arr = int i) (enumerate 0 arr))"

definition summary_of :: "match list \<Rightarrow> string \<Rightarrow> string" where
  "summary_of unique scanPoint =
     ''LEAK DETECTED: '' @ dec_nat (length unique) @ '' credential(s) found at '' @ scanPoint @ ''. ''
     @ ''Severities: '' @ join '', '' (map join_str (set_values [] (map (\<lambda>m. get_prop m ''severity'') unique))) @ ''. ''
     @ ''Types: '' @ join '', '' (map join_str (set_values [] (map (\<lambda>m. get_prop m ''pattern'') unique))) @ ''. ''
     @ ''Powered by 5warm.ai/stack''"

text \<open>\<open>scan(text, scanPoint, context)\<close> on the detector \<open>patterns\<close>: the result and the
  detector afterwards, or \<open>None\<close> when the call never returns.\<close>

definition scan :: "pattern list \<Rightarrow> jsval \<Rightarrow> string \<Rightarrow> (string \<rightharpoonup> jsval) \<Rightarrow> (nat \<Rightarrow> string)
    \<Rightarrow> (scan_result \<times> pattern list) option" where
  "scan patterns text scanPoint context clock =
     (if falsy text \<or> \<not> is_string text
      then Some (\<lparr> leaked = False, matches = [], redacted = text, summary = None \<rparr>, patterns)
      else (case scan_for patterns (the_string text) scanPoint context clock ([], the_string text) of
              None \<Rightarrow> None
            | Some (acc, patterns') \<Rightarrow>
                (let unique = unique_matches (fst acc) in
                 Some (\<lparr> leaked = (length unique > 0),
                         matches = unique,
                         redacted = VStr (snd acc),
                         summary = (if length unique > 0 then Some (summary_of unique scanPoint) else None) \<rparr>,
                       patterns'))))"

section \<open>hasLeak\<close>

fun hasLeak_for :: "pattern list \<Rightarrow> string \<Rightarrow> bool \<times> pattern list" where
  "hasLeak_for [] text = (False, [])"
| "hasLeak_for (p # ps) text =
     (case exec ((regex p)\<lparr>lastIndex := 0\<rparr>) text of
        (None, R') \<Rightarrow> (case hasLeak_for ps text of (b, ps') \<Rightarrow> (b, p\<lparr>regex := R'\<rparr> # ps'))
      | (Some h, R') \<Rightarrow> (True, p\<lparr>regex := R'\<rparr> # ps))"

definition hasLeak :: "pattern list \<Rightarrow> jsval \<Rightarrow> bool \<times> pattern list" where
  "hasLeak patterns text =
     (if falsy text \<or> \<not> is_string text then (False, patterns)
      else hasLeak_for patterns (the_string text))"

section \<open>redact\<close>

text \<open>The replacer function of \<open>redact\<close>.\<close>

definition mask_value :: "string \<Rightarrow> string" where
  "mask_value m =
     (if length m < 12 then m
      else if length m > 12
      then take 4 m @ replicate (min (length m - 8) 16) CHR ''*'' @ last4 m
      else replicate (length m) CHR ''*'')"

text \<open>
  \<open>S.replace(R, f)\<close> with a RegExp \<open>R\<close> and a function \<open>f\<close>: the matches are collected
  with \<open>exec\<close> (all of them with the \<open>g\<close> flag, stepping over an empty match; the first
  one without), then the result is assembled.
\<close>

function replace_collect :: "regexp \<Rightarrow> string \<Rightarrow> (nat \<times> string) list \<Rightarrow> (nat \<times> string) list \<times> regexp" where
  "replace_collect R S results =
     (case exec R S of
        (None, R') \<Rightarrow> (results, R')
      | (Some h, R') \<Rightarrow>
          if global R
          then replace_collect (if snd h = [] then R'\<lparr>lastIndex := lastIndex R' + 1\<rparr> else R') S (results @ [h])
          else (results @ [h], R'))"
  by pat_completeness auto
termination
proof -
  have ff: "find_first m bef rest i = Some (j, v) \<Longrightarrow> i \<le> j \<and> j + length v \<le> i + length rest"
    for m :: "string \<Rightarrow> string \<Rightarrow> nat option" and bef and rest and i and j and v
    by (induction rest arbitrary: bef i) (fastforce split: option.splits)+
  have ex: "exec R S = (Some (i, v), R') \<Longrightarrow> global R \<Longrightarrow>
      lastIndex R \<le> i \<and> lastIndex R' = i + length v \<and> lastIndex R' \<le> length S"
    for R S i v R'
    by (auto simp: exec_def Let_def split: if_splits option.splits dest!: ff)
  have step: "(Some h, R') = exec R S \<Longrightarrow> global R \<Longrightarrow>
      Suc (Suc (length S)) - lastIndex (if snd h = [] then R'\<lparr>lastIndex := lastIndex R' + 1\<rparr> else R')
      < Suc (Suc (length S)) - lastIndex R"
    for R S h R'
  proof (cases h)
    case (Pair i v)
    assume "(Some h, R') = exec R S" "global R"
    with Pair ex [of R S i v R'] show ?thesis by (cases v) auto
  qed
  show ?thesis
    by (relation "measure (\<lambda>(R, S, results). Suc (Suc (length S)) - lastIndex R)")
       (use step in auto)
qed

declare replace_collect.simps [simp del]

fun replace_build :: "string \<Rightarrow> (string \<Rightarrow> string) \<Rightarrow> (nat \<times> string) list \<Rightarrow> nat \<Rightarrow> string \<Rightarrow> string" where
  "replace_build S f [] nextPos acc = acc @ drop nextPos S"
| "replace_build S f ((i, m) # rs) nextPos acc =
     (let position = min i (length S) in
      if position \<ge> nextPos
      then replace_build S f rs (position + length m) (acc @ take (position - nextPos) (drop nextPos S) @ f m)
      else replace_build S f rs nextPos acc)"

definition replace_regexp :: "regexp \<Rightarrow> string \<Rightarrow> (string \<Rightarrow> string) \<Rightarrow> string \<times> regexp" where
  "replace_regexp R S f =
     (case replace_collect (if global R then R\<lparr>lastIndex := 0\<rparr> else R) S [] of
        (results, R') \<Rightarrow> (replace_build S f results 0 [], R'))"

fun redact_for :: "pattern list \<Rightarrow> string \<Rightarrow> string \<times> pattern list" where
  "redact_for [] result = (result, [])"
| "redact_for (p # ps) result =
     (case replace_regexp ((regex p)\<lparr>lastIndex := 0\<rparr>) result mask_value of
        (result', R') \<Rightarrow> (case redact_for ps result' of (out, ps') \<Rightarrow> (out, p\<lparr>regex := R'\<rparr> # ps')))"

definition redact :: "pattern list \<Rightarrow> jsval \<Rightarrow> jsval \<times> pattern list" where
  "redact patterns text =
     (if falsy text \<or> \<not> is_string text then (text, patterns)
      else (case redact_for patterns (the_string text) of (out, ps') \<Rightarrow> (VStr out, ps')))"

section \<open>Notions used to state the properties\<close>

text \<open>
  The matches that the loop \<open>while ((match = regex.exec(text)) !== null)\<close> goes through
  from the state \<open>R\<close>, with the state at the end; \<open>None\<close> when the loop never ends.
  \<open>hits R S\<close> are the matches of a rule's RegExp object on \<open>S\<close> after the reset of its
  cursor.
\<close>

function exec_all :: "regexp \<Rightarrow> string \<Rightarrow> ((nat \<times> string) list \<times> regexp) option" where
  "exec_all R S =
     (case exec R S of
        (None, R') \<Rightarrow> Some ([], R')
      | (Some h, R') \<Rightarrow>
          if global R \<and> lastIndex R < lastIndex R'
          then (case exec_all R' S of None \<Rightarrow> None | Some (hs, R'') \<Rightarrow> Some (h # hs, R''))
          else None)"
  by pat_completeness auto
termination
proof -
  have ff: "find_first m bef rest i = Some (j, v) \<Longrightarrow> j + length v \<le> i + length rest"
    for m :: "string \<Rightarrow> string \<Rightarrow> nat option" and bef and rest and i and j and v
    by (induction rest arbitrary: bef i) (fastforce split: option.splits)+
  have ex: "exec R S = (Some (i, v), R') \<Longrightarrow> global R \<Longrightarrow> lastIndex R' \<le> length S"
    for R S i v R'
    by (auto simp: exec_def Let_def split: if_splits option.splits dest!: ff)
  have step: "(Some h, R') = exec R S \<Longrightarrow> global R \<Longrightarrow> lastIndex R < lastIndex R'
      \<Longrightarrow> Suc (length S) - lastIndex R' < Suc (length S) - lastIndex R"
    for R S h R'
    using ex [of R S "fst h" "snd h" R'] by auto
  show ?thesis
    by (relation "measure (\<lambda>(R, S). Suc (length S) - lastIndex R)") (use step in auto)
qed

declare exec_all.simps [simp del]

definition hits :: "regexp \<Rightarrow> string \<Rightarrow> (nat \<times> string) list" where
  "hits R S = (case exec_all (R\<lparr>lastIndex := 0\<rparr>) S of None \<Rightarrow> [] | Some (hs, R') \<Rightarrow> hs)"

text \<open>The matches that a pass of \<open>redact\<close> replaces: what \<open>replace\<close> collects for the
  rule, and those of at least 12 code units among them, in one rule and in a rule list.\<close>

definition occurrences :: "regexp \<Rightarrow> string \<Rightarrow> (nat \<times> string) list" where
  "occurrences R S = fst (replace_collect (if global R then R\<lparr>lastIndex := 0\<rparr> else R) S [])"

definition qualifying :: "regexp \<Rightarrow> string \<Rightarrow> (nat \<times> string) list" where
  "qualifying R S = filter (\<lambda>h. 12 \<le> length (snd h)) (occurrences R S)"

definition residual :: "pattern list \<Rightarrow> string \<Rightarrow> (nat \<times> string) list" where
  "residual ps S = concat (map (\<lambda>p. qualifying (regex p) S) ps)"

text \<open>A text cut into the pieces between the matches and the matches: \<open>weave\<close> puts
  it together again.\<close>

fun weave :: "string list \<Rightarrow> string list \<Rightarrow> string" where
  "weave [] vs = []"
| "weave (g # gs) [] = g"
| "weave (g # gs) (v # vs) = g @ v @ weave gs vs"

text \<open>The pieces of \<open>S\<close> from the index \<open>n\<close> on that lie between the matches \<open>hs\<close>,
  and what it is for the matches to follow each other in \<open>S\<close> from \<open>n\<close> on without
  overlap.\<close>

fun gaps :: "string \<Rightarrow> nat \<Rightarrow> (nat \<times> string) list \<Rightarrow> string list" where
  "gaps S n [] = [drop n S]"
| "gaps S n ((i, v) # hs) = take (i - n) (drop n S) # gaps S (i + length v) hs"

fun chained :: "string \<Rightarrow> nat \<Rightarrow> (nat \<times> string) list \<Rightarrow> bool" where
  "chained S n [] = True"
| "chained S n ((i, v) # hs) =
     (n \<le> i \<and> i + length v \<le> length S \<and> v = take (length v) (drop i S) \<and> chained S (i + length v) hs)"

text \<open>The standard properties of a Match, and a result seen through them.\<close>

definition standard_fields :: "string list" where
  "standard_fields = [''pattern'', ''severity'', ''position'', ''length'', ''preview'', ''scanPoint'', ''timestamp'']"

definition view_match :: "match \<Rightarrow> jsval list" where
  "view_match m = map (get_prop m) standard_fields"

definition view_result :: "scan_result \<Rightarrow> bool \<times> jsval list list \<times> jsval \<times> string option" where
  "view_result r = (leaked r, map view_match (matches r), redacted r, summary r)"

text \<open>The key by which \<open>scan\<close> removes duplicates.\<close>

definition match_key :: "match \<Rightarrow> jsval \<times> jsval" where
  "match_key m = (get_prop m ''pattern'', get_prop m ''position'')"

text \<open>A detector with the search cursors of all its rules at 0: two detectors with the
  same \<open>reset_cursors\<close> differ in the cursors only.\<close>

definition reset_cursors :: "pattern list \<Rightarrow> pattern list" where
  "reset_cursors ps = map (\<lambda>p. p\<lparr>regex := (regex p)\<lparr>lastIndex := 0\<rparr>\<rparr>) ps"

text \<open>Calls on a detector, and the detector after a sequence of them (\<open>None\<close> when one
  of them never returns).\<close>

datatype call =
    CallScan jsval string "string \<rightharpoonup> jsval" "nat \<Rightarrow> string"
  | CallHasLeak jsval
  | CallRedact jsval

fun run_calls :: "pattern list \<Rightarrow> call list \<Rightarrow> pattern list option" where
  "run_calls d [] = Some d"
| "run_calls d (CallScan t sp ctx clock # cs) =
     (case scan d t sp ctx clock of None \<Rightarrow> None | Some (r, d') \<Rightarrow> run_calls d' cs)"
| "run_calls d (CallHasLeak t # cs) = run_calls (snd (hasLeak d t)) cs"
| "run_calls d (CallRedact t # cs) = run_calls (snd (redact d t)) cs"

text \<open>The least number of code units that a match of a pattern consumes.\<close>

primrec minlen :: "rx \<Rightarrow> nat" where
  "minlen (Str s) = length s"
| "minlen (Cls A) = 1"
| "minlen (NCls A) = 1"
| "minlen Dot = 1"
| "minlen (Seq a b) = minlen a + minlen b"
| "minlen (Alt a b) = min (minlen a) (minlen b)"
| "minlen (Rep r mn mx) = (case mx of None \<Rightarrow> mn | Some m \<Rightarrow> min mn m) * minlen r"
| "minlen (Ahead r) = 0"
| "minlen WordB = 0"
| "minlen Bol = 0"
| "minlen Eol = 0"

text \<open>Inputs on which the detector is evaluated below: the key of the repository's tests
  (\<open>sk-or-v1-\<close> and 64 times \<open>a\<close>), a key of the xAI shape alone and twice, a short
  Tailscale key, a password assignment whose value is mask characters, and a connection
  string with a password assignment in it.\<close>

definition openrouter_fixture :: string where
  "openrouter_fixture = ''sk-or-v1-aaaaaaaaaaaaaaaaaaaaaaaaaaaaaaaaaaaaaaaaaaaaaaaaaaaaaaaaaaaaaaaa''"

definition xai_fixture :: string where
  "xai_fixture = ''xai-aaaaaaaaaaaaaaaaaaaa''"

definition xai_twice :: string where
  "xai_twice = ''xai-aaaaaaaaaaaaaaaaaaaa xai-aaaaaaaaaaaaaaaaaaaa''"

definition tailscale_short :: string where
  "tailscale_short = ''tskey-a-b''"

definition masked_password :: string where
  "masked_password = ''pwd=****************abcd''"

definition redis_password :: string where
  "redis_password = ''redis://pwd= abcdefghij''"

text \<open>A match advances by at least \<open>k\<close> code units from the cursor \<open>cur\<close> to the cursor
  \<open>c\<close>, and consumes what it counts.\<close>

definition advances :: "nat \<Rightarrow> cursor \<Rightarrow> cursor \<Rightarrow> bool" where
  "advances k cur c =
     (fst cur + k \<le> fst c \<and> fst c + length (snd (snd c)) = fst cur + length (snd (snd cur)))"

text \<open>A RegExp object under which the loop of \<open>scan\<close> ends: it has the \<open>g\<close> flag and no
  match of it is empty.\<close>

definition productive :: "regexp \<Rightarrow> bool" where
  "productive R =
     (global R \<and> (\<forall>bef rest. case matcher R bef rest of None \<Rightarrow> True | Some l \<Rightarrow> take l rest \<noteq> []))"

section \<open>Evaluation of code units\<close>

text \<open>The code of every code unit, as a table: the equations by which \<open>code\<close> is
  evaluated.\<close>

lemma code_table [code]:
  "code (CHR 0x00) = 0" "code (CHR 0x01) = 1" "code (CHR 0x02) = 2" "code (CHR 0x03) = 3"
  "code (CHR 0x04) = 4" "code (CHR 0x05) = 5" "code (CHR 0x06) = 6" "code (CHR 0x07) = 7"
  "code (CHR 0x08) = 8" "code (CHR 0x09) = 9" "code (CHR 0x0A) = 10" "code (CHR 0x0B) = 11"
  "code (CHR 0x0C) = 12" "code (CHR 0x0D) = 13" "code (CHR 0x0E) = 14" "code (CHR 0x0F) = 15"
  "code (CHR 0x10) = 16" "code (CHR 0x11) = 17" "code (CHR 0x12) = 18" "code (CHR 0x13) = 19"
  "code (CHR 0x14) = 20" "code (CHR 0x15) = 21" "code (CHR 0x16) = 22" "code (CHR 0x17) = 23"
  "code (CHR 0x18) = 24" "code (CHR 0x19) = 25" "code (CHR 0x1A) = 26" "code (CHR 0x1B) = 27"
  "code (CHR 0x1C) = 28" "code (CHR 0x1D) = 29" "code (CHR 0x1E) = 30" "code (CHR 0x1F) = 31"
  "code (CHR 0x20) = 32" "code (CHR 0x21) = 33" "code (CHR 0x22) = 34" "code (CHR 0x23) = 35"
  "code (CHR 0x24) = 36" "code (CHR 0x25) = 37" "code (CHR 0x26) = 38" "code (CHR 0x27) = 39"
  "code (CHR 0x28) = 40" "code (CHR 0x29) = 41" "code (CHR 0x2A) = 42" "code (CHR 0x2B) = 43"
  "code (CHR 0x2C) = 44" "code (CHR 0x2D) = 45" "code (CHR 0x2E) = 46" "code (CHR 0x2F) = 47"
  "code (CHR 0x30) = 48" "code (CHR 0x31) = 49" "code (CHR 0x32) = 50" "code (CHR 0x33) = 51"
  "code (CHR 0x34) = 52" "code (CHR 0x35) = 53" "code (CHR 0x36) = 54" "code (CHR 0x37) = 55"
  "code (CHR 0x38) = 56" "code (CHR 0x39) = 57" "code (CHR 0x3A) = 58" "code (CHR 0x3B) = 59"
  "code (CHR 0x3C) = 60" "code (CHR 0x3D) = 61" "code (CHR 0x3E) = 62" "code (CHR 0x3F) = 63"
  "code (CHR 0x40) = 64" "code (CHR 0x41) = 65" "code (CHR 0x42) = 66" "code (CHR 0x43) = 67"
  "code (CHR 0x44) = 68" "code (CHR 0x45) = 69" "code (CHR 0x46) = 70" "code (CHR 0x47) = 71"
  "code (CHR 0x48) = 72" "code (CHR 0x49) = 73" "code (CHR 0x4A) = 74" "code (CHR 0x4B) = 75"
  "code (CHR 0x4C) = 76" "code (CHR 0x4D) = 77" "code (CHR 0x4E) = 78" "code (CHR 0x4F) = 79"
  "code (CHR 0x50) = 80" "code (CHR 0x51) = 81" "code (CHR 0x52) = 82" "code (CHR 0x53) = 83"
  "code (CHR 0x54) = 84" "code (CHR 0x55) = 85" "code (CHR 0x56) = 86" "code (CHR 0x57) = 87"
  "code (CHR 0x58) = 88" "code (CHR 0x59) = 89" "code (CHR 0x5A) = 90" "code (CHR 0x5B) = 91"
  "code (CHR 0x5C) = 92" "code (CHR 0x5D) = 93" "code (CHR 0x5E) = 94" "code (CHR 0x5F) = 95"
  "code (CHR 0x60) = 96" "code (CHR 0x61) = 97" "code (CHR 0x62) = 98" "code (CHR 0x63) = 99"
  "code (CHR 0x64) = 100" "code (CHR 0x65) = 101" "code (CHR 0x66) = 102" "code (CHR 0x67) = 103"
  "code (CHR 0x68) = 104" "code (CHR 0x69) = 105" "code (CHR 0x6A) = 106" "code (CHR 0x6B) = 107"
  "code (CHR 0x6C) = 108" "code (CHR 0x6D) = 109" "code (CHR 0x6E) = 110" "code (CHR 0x6F) = 111"
  "code (CHR 0x70) = 112" "code (CHR 0x71) = 113" "code (CHR 0x72) = 114" "code (CHR 0x73) = 115"
  "code (CHR 0x74) = 116" "code (CHR 0x75) = 117" "code (CHR 0x76) = 118" "code (CHR 0x77) = 119"
  "code (CHR 0x78) = 120" "code (CHR 0x79) = 121" "code (CHR 0x7A) = 122" "code (CHR 0x7B) = 123"
  "code (CHR 0x7C) = 124" "code (CHR 0x7D) = 125" "code (CHR 0x7E) = 126" "code (CHR 0x7F) = 127"
  "code (CHR 0x80) = 128" "code (CHR 0x81) = 129" "code (CHR 0x82) = 130" "code (CHR 0x83) = 131"
  "code (CHR 0x84) = 132" "code (CHR 0x85) = 133" "code (CHR 0x86) = 134" "code (CHR 0x87) = 135"
  "code (CHR 0x88) = 136" "code (CHR 0x89) = 137" "code (CHR 0x8A) = 138" "code (CHR 0x8B) = 139"
  "code (CHR 0x8C) = 140" "code (CHR 0x8D) = 141" "code (CHR 0x8E) = 142" "code (CHR 0x8F) = 143"
  "code (CHR 0x90) = 144" "code (CHR 0x91) = 145" "code (CHR 0x92) = 146" "code (CHR 0x93) = 147"
  "code (CHR 0x94) = 148" "code (CHR 0x95) = 149" "code (CHR 0x96) = 150" "code (CHR 0x97) = 151"
  "code (CHR 0x98) = 152" "code (CHR 0x99) = 153" "code (CHR 0x9A) = 154" "code (CHR 0x9B) = 155"
  "code (CHR 0x9C) = 156" "code (CHR 0x9D) = 157" "code (CHR 0x9E) = 158" "code (CHR 0x9F) = 159"
  "code (CHR 0xA0) = 160" "code (CHR 0xA1) = 161" "code (CHR 0xA2) = 162" "code (CHR 0xA3) = 163"
  "code (CHR 0xA4) = 164" "code (CHR 0xA5) = 165" "code (CHR 0xA6) = 166" "code (CHR 0xA7) = 167"
  "code (CHR 0xA8) = 168" "code (CHR 0xA9) = 169" "code (CHR 0xAA) = 170" "code (CHR 0xAB) = 171"
  "code (CHR 0xAC) = 172" "code (CHR 0xAD) = 173" "code (CHR 0xAE) = 174" "code (CHR 0xAF) = 175"
  "code (CHR 0xB0) = 176" "code (CHR 0xB1) = 177" "code (CHR 0xB2) = 178" "code (CHR 0xB3) = 179"
  "code (CHR 0xB4) = 180" "code (CHR 0xB5) = 181" "code (CHR 0xB6) = 182" "code (CHR 0xB7) = 183"
  "code (CHR 0xB8) = 184" "code (CHR 0xB9) = 185" "code (CHR 0xBA) = 186" "code (CHR 0xBB) = 187"
  "code (CHR 0xBC) = 188" "code (CHR 0xBD) = 189" "code (CHR 0xBE) = 190" "code (CHR 0xBF) = 191"
  "code (CHR 0xC0) = 192" "code (CHR 0xC1) = 193" "code (CHR 0xC2) = 194" "code (CHR 0xC3) = 195"
  "code (CHR 0xC4) = 196" "code (CHR 0xC5) = 197" "code (CHR 0xC6) = 198" "code (CHR 0xC7) = 199"
  "code (CHR 0xC8) = 200" "code (CHR 0xC9) = 201" "code (CHR 0xCA) = 202" "code (CHR 0xCB) = 203"
  "code (CHR 0xCC) = 204" "code (CHR 0xCD) = 205" "code (CHR 0xCE) = 206" "code (CHR 0xCF) = 207"
  "code (CHR 0xD0) = 208" "code (CHR 0xD1) = 209" "code (CHR 0xD2) = 210" "code (CHR 0xD3) = 211"
  "code (CHR 0xD4) = 212" "code (CHR 0xD5) = 213" "code (CHR 0xD6) = 214" "code (CHR 0xD7) = 215"
  "code (CHR 0xD8) = 216" "code (CHR 0xD9) = 217" "code (CHR 0xDA) = 218" "code (CHR 0xDB) = 219"
  "code (CHR 0xDC) = 220" "code (CHR 0xDD) = 221" "code (CHR 0xDE) = 222" "code (CHR 0xDF) = 223"
  "code (CHR 0xE0) = 224" "code (CHR 0xE1) = 225" "code (CHR 0xE2) = 226" "code (CHR 0xE3) = 227"
  "code (CHR 0xE4) = 228" "code (CHR 0xE5) = 229" "code (CHR 0xE6) = 230" "code (CHR 0xE7) = 231"
  "code (CHR 0xE8) = 232" "code (CHR 0xE9) = 233" "code (CHR 0xEA) = 234" "code (CHR 0xEB) = 235"
  "code (CHR 0xEC) = 236" "code (CHR 0xED) = 237" "code (CHR 0xEE) = 238" "code (CHR 0xEF) = 239"
  "code (CHR 0xF0) = 240" "code (CHR 0xF1) = 241" "code (CHR 0xF2) = 242" "code (CHR 0xF3) = 243"
  "code (CHR 0xF4) = 244" "code (CHR 0xF5) = 245" "code (CHR 0xF6) = 246" "code (CHR 0xF7) = 247"
  "code (CHR 0xF8) = 248" "code (CHR 0xF9) = 249" "code (CHR 0xFA) = 250" "code (CHR 0xFB) = 251"
  "code (CHR 0xFC) = 252" "code (CHR 0xFD) = 253" "code (CHR 0xFE) = 254" "code (CHR 0xFF) = 255"
  by (simp_all add: code_def)

section \<open>Facts about \<open>exec\<close> and the loops over it\<close>

lemma find_first_bounds:
  "find_first m bef rest i = Some (j, v) \<Longrightarrow> i \<le> j \<and> j + length v \<le> i + length rest"
  by (induction rest arbitrary: bef i) (fastforce split: option.splits)+

lemma find_first_substring:
  "find_first m bef rest i = Some (j, v) \<Longrightarrow> v = take (length v) (drop (j - i) rest)"
proof (induction rest arbitrary: bef i)
  case Nil
  then show ?case by (auto split: option.splits)
next
  case (Cons c cs)
  show ?case
  proof (cases "m bef (c # cs)")
    case (Some l)
    with Cons.prems show ?thesis by (auto simp: min_def)
  next
    case None
    with Cons.prems have ff: "find_first m (c # bef) cs (Suc i) = Some (j, v)" by simp
    from find_first_bounds [OF ff] have "Suc i \<le> j" by simp
    then have "j - i = Suc (j - Suc i)" by simp
    with Cons.IH [OF ff] show ?thesis by simp
  qed
qed

lemma exec_cases:
  "exec R S = (x, R') \<Longrightarrow> R' = R \<or> (\<exists>n. R' = R\<lparr>lastIndex := n\<rparr>)"
  by (auto simp: exec_def Let_def split: if_splits option.splits)

lemma exec_same:
  "exec R S = (x, R') \<Longrightarrow> matcher R' = matcher R \<and> global R' = global R"
  by (drule exec_cases) auto

lemma exec_Some_global:
  assumes "exec R S = (Some (i, v), R')" and "global R"
  shows "lastIndex R \<le> i" and "R' = R\<lparr>lastIndex := i + length v\<rparr>" and "i + length v \<le> length S"
  using assms
  by (auto simp: exec_def Let_def split: if_splits option.splits dest!: find_first_bounds)

lemma exec_substring:
  assumes "exec R S = (Some (i, v), R')"
  shows "v = take (length v) (drop i S)"
proof -
  define L where "L = (if global R then lastIndex R else 0)"
  from assms have ff: "find_first (matcher R) (rev (take L S)) (drop L S) L = Some (i, v)" and le: "L \<le> length S"
    by (auto simp: exec_def Let_def L_def split: if_splits option.splits)
  from find_first_bounds [OF ff] have "L \<le> i" by simp
  with find_first_substring [OF ff] show ?thesis by simp
qed

lemma exec_reset_cursor [simp]:
  "exec (R\<lparr>lastIndex := 0\<rparr>\<lparr>lastIndex := 0\<rparr>) S = exec (R\<lparr>lastIndex := 0\<rparr>) S"
  by simp

lemma exec_all_same:
  "exec_all R S = Some (hs, R') \<Longrightarrow> matcher R' = matcher R \<and> global R' = global R"
proof (induction R S arbitrary: hs R' rule: exec_all.induct)
  case (1 R S)
  obtain x R1 where ex: "exec R S = (x, R1)" by (cases "exec R S")
  show ?case
  proof (cases x)
    case None
    with 1 ex exec_same [OF ex] show ?thesis by (simp add: exec_all.simps [of R S])
  next
    case (Some h)
    with "1.prems" ex obtain hs' where g: "global R \<and> lastIndex R < lastIndex R1"
      and ea: "exec_all R1 S = Some (hs', R')"
      by (auto simp: exec_all.simps [of R S] split: if_splits option.splits)
    from "1.IH" [OF ex [symmetric] Some g ea] exec_same [OF ex] show ?thesis by simp
  qed
qed

lemma scan_while_exec_all:
  "scan_while p S sp ctx clock R acc =
     (case exec_all R S of
        None \<Rightarrow> None
      | Some (hs, R') \<Rightarrow> Some (foldl (\<lambda>a h. scan_body p (fst h) (snd h) sp ctx clock a) acc hs, R'))"
proof (induction R S arbitrary: acc rule: exec_all.induct)
  case (1 R S)
  obtain x R1 where ex: "exec R S = (x, R1)" by (cases "exec R S")
  show ?case
  proof (cases x)
    case None
    with ex show ?thesis by (simp add: exec_all.simps [of R S] scan_while.simps [of _ S _ _ _ R])
  next
    case (Some h)
    show ?thesis
    proof (cases "global R \<and> lastIndex R < lastIndex R1")
      case True
      have "scan_while p S sp ctx clock R acc =
          scan_while p S sp ctx clock R1 (scan_body p (fst h) (snd h) sp ctx clock acc)"
        using ex Some True by (cases h) (simp add: scan_while.simps [of _ S _ _ _ R])
      also note "1.IH" [OF ex [symmetric] Some True]
      finally show ?thesis
        using ex Some True by (simp add: exec_all.simps [of R S] split: option.splits)
    next
      case False
      with ex Some show ?thesis
        by (cases h) (auto simp add: exec_all.simps [of R S] scan_while.simps [of _ S _ _ _ R])
    qed
  qed
qed

lemma exec_all_substring:
  "exec_all R S = Some (hs, R') \<Longrightarrow> h \<in> set hs \<Longrightarrow> snd h = take (length (snd h)) (drop (fst h) S)"
proof (induction R S arbitrary: hs R' rule: exec_all.induct)
  case (1 R S)
  obtain x R1 where ex: "exec R S = (x, R1)" by (cases "exec R S")
  show ?case
  proof (cases x)
    case None
    with 1 ex show ?thesis by (simp add: exec_all.simps [of R S])
  next
    case (Some h1)
    with "1.prems" ex obtain hs' where g: "global R \<and> lastIndex R < lastIndex R1"
      and ea: "exec_all R1 S = Some (hs', R')" and hs: "hs = h1 # hs'"
      by (auto simp: exec_all.simps [of R S] split: if_splits option.splits)
    from ex Some have "exec R S = (Some (fst h1, snd h1), R1)" by simp
    from exec_substring [OF this] "1.IH" [OF ex [symmetric] Some g ea] "1.prems"(2) hs
    show ?thesis by auto
  qed
qed

lemma hits_substring:
  "h \<in> set (hits R S) \<Longrightarrow> snd h = take (length (snd h)) (drop (fst h) S)"
  by (cases "exec_all (R\<lparr>lastIndex := 0\<rparr>) S") (auto simp: hits_def dest: exec_all_substring)

subsection \<open>The loop body over a list of matches\<close>

lemma fold_body_prefix:
  "\<exists>ms. fst (foldl (\<lambda>a h. scan_body p (fst h) (snd h) sp ctx clock a) acc hs) = fst acc @ ms"
proof (induction hs arbitrary: acc)
  case Nil
  show ?case by simp
next
  case (Cons h hs)
  from Cons [of "scan_body p (fst h) (snd h) sp ctx clock acc"]
  show ?case by (auto simp: scan_body_def split: if_splits)
qed

lemma fold_body_origin:
  "m \<in> set (fst (foldl (\<lambda>a h. scan_body p (fst h) (snd h) sp ctx clock a) acc hs)) \<Longrightarrow>
   m \<in> set (fst acc) \<or>
   (\<exists>h\<in>set hs. \<exists>k. 12 \<le> length (snd h) \<and> m = new_match p (fst h) (snd h) sp (clock k) ctx)"
proof (induction hs arbitrary: acc)
  case Nil
  then show ?case by simp
next
  case (Cons h hs)
  from Cons.IH [OF Cons.prems [simplified]]
  show ?case by (auto simp: scan_body_def split: if_splits)
qed

lemma fold_body_complete:
  "h \<in> set hs \<Longrightarrow> 12 \<le> length (snd h) \<Longrightarrow>
   \<exists>k. new_match p (fst h) (snd h) sp (clock k) ctx
        \<in> set (fst (foldl (\<lambda>a h. scan_body p (fst h) (snd h) sp ctx clock a) acc hs))"
proof (induction hs arbitrary: acc)
  case Nil
  then show ?case by simp
next
  case (Cons g hs)
  show ?case
  proof (cases "h = g")
    case True
    obtain ms where "fst (foldl (\<lambda>a h. scan_body p (fst h) (snd h) sp ctx clock a)
        (scan_body p (fst g) (snd g) sp ctx clock acc) hs) = fst (scan_body p (fst g) (snd g) sp ctx clock acc) @ ms"
      using fold_body_prefix by blast
    with True Cons.prems(2) show ?thesis
      by (auto simp: scan_body_def)
  next
    case False
    with Cons show ?thesis by auto
  qed
qed

lemma fold_body_frame:
  "fst (foldl (\<lambda>a h. scan_body p (fst h) (snd h) sp ctx clock a) acc hs) = fst acc \<Longrightarrow>
   snd (foldl (\<lambda>a h. scan_body p (fst h) (snd h) sp ctx clock a) acc hs) = snd acc"
proof (induction hs arbitrary: acc)
  case Nil
  show ?case by simp
next
  case (Cons h hs)
  show ?case
  proof (cases "length (snd h) < 12")
    case True
    with Cons show ?thesis by (simp add: scan_body_def)
  next
    case False
    obtain ms where "fst (foldl (\<lambda>a h. scan_body p (fst h) (snd h) sp ctx clock a)
        (scan_body p (fst h) (snd h) sp ctx clock acc) hs) = fst (scan_body p (fst h) (snd h) sp ctx clock acc) @ ms"
      using fold_body_prefix by blast
    with False Cons.prems have False by (simp add: scan_body_def)
    then show ?thesis ..
  qed
qed

subsection \<open>The loop over the rules\<close>

lemma scan_for_Cons_Some:
  assumes "scan_for (p # ps) S sp ctx clock acc = Some (acc', qs)"
  obtains hs R' ps' where "exec_all ((regex p)\<lparr>lastIndex := 0\<rparr>) S = Some (hs, R')"
    and "hits (regex p) S = hs"
    and "scan_for ps S sp ctx clock (foldl (\<lambda>a h. scan_body p (fst h) (snd h) sp ctx clock a) acc hs) = Some (acc', ps')"
    and "qs = p\<lparr>regex := R'\<rparr> # ps'"
  using assms
  by (auto simp: scan_while_exec_all hits_def split: option.splits)

lemma scan_for_prefix:
  "scan_for ps S sp ctx clock acc = Some (acc', qs) \<Longrightarrow> \<exists>ms. fst acc' = fst acc @ ms"
proof (induction ps arbitrary: acc qs)
  case Nil
  then show ?case by simp
next
  case (Cons p ps)
  from Cons.prems obtain hs and R' :: regexp and ps' where
    sf: "scan_for ps S sp ctx clock (foldl (\<lambda>a h. scan_body p (fst h) (snd h) sp ctx clock a) acc hs) = Some (acc', ps')"
    by (rule scan_for_Cons_Some)
  from Cons.IH [OF sf] fold_body_prefix [of p sp ctx clock acc hs]
  show ?case by auto
qed

lemma scan_for_origin:
  "scan_for ps S sp ctx clock acc = Some (acc', qs) \<Longrightarrow> m \<in> set (fst acc') \<Longrightarrow>
   m \<in> set (fst acc) \<or>
   (\<exists>p\<in>set ps. \<exists>h\<in>set (hits (regex p) S). \<exists>k.
      12 \<le> length (snd h) \<and> m = new_match p (fst h) (snd h) sp (clock k) ctx)"
proof (induction ps arbitrary: acc qs)
  case Nil
  then show ?case by simp
next
  case (Cons p ps)
  from Cons.prems(1) obtain hs and R' :: regexp and ps' where
    h: "hits (regex p) S = hs" and
    sf: "scan_for ps S sp ctx clock (foldl (\<lambda>a h. scan_body p (fst h) (snd h) sp ctx clock a) acc hs) = Some (acc', ps')"
    by (rule scan_for_Cons_Some)
  from Cons.IH [OF sf Cons.prems(2)] show ?case
  proof
    assume "m \<in> set (fst (foldl (\<lambda>a h. scan_body p (fst h) (snd h) sp ctx clock a) acc hs))"
    from fold_body_origin [OF this] h show ?thesis by auto
  next
    assume "\<exists>p\<in>set ps. \<exists>h\<in>set (hits (regex p) S). \<exists>k.
      12 \<le> length (snd h) \<and> m = new_match p (fst h) (snd h) sp (clock k) ctx"
    then show ?thesis by auto
  qed
qed

lemma scan_for_complete:
  "scan_for ps S sp ctx clock acc = Some (acc', qs) \<Longrightarrow> p \<in> set ps \<Longrightarrow>
   h \<in> set (hits (regex p) S) \<Longrightarrow> 12 \<le> length (snd h) \<Longrightarrow>
   \<exists>k. new_match p (fst h) (snd h) sp (clock k) ctx \<in> set (fst acc')"
proof (induction ps arbitrary: acc qs)
  case Nil
  then show ?case by simp
next
  case (Cons q ps)
  from Cons.prems(1) obtain hs and R' :: regexp and ps' where
    hq: "hits (regex q) S = hs" and
    sf: "scan_for ps S sp ctx clock (foldl (\<lambda>a h. scan_body q (fst h) (snd h) sp ctx clock a) acc hs) = Some (acc', ps')"
    by (rule scan_for_Cons_Some)
  show ?case
  proof (cases "p \<in> set ps")
    case True
    from Cons.IH [OF sf True Cons.prems(3,4)] show ?thesis .
  next
    case False
    with Cons.prems(2) have pq: "p = q" by simp
    from Cons.prems(3) pq hq have "h \<in> set hs" by simp
    from fold_body_complete [OF this Cons.prems(4), of q sp clock ctx acc]
    obtain k where "new_match q (fst h) (snd h) sp (clock k) ctx
        \<in> set (fst (foldl (\<lambda>a h. scan_body q (fst h) (snd h) sp ctx clock a) acc hs))" ..
    moreover from scan_for_prefix [OF sf] obtain ms where
      "fst acc' = fst (foldl (\<lambda>a h. scan_body q (fst h) (snd h) sp ctx clock a) acc hs) @ ms" ..
    ultimately show ?thesis using pq by auto
  qed
qed

lemma scan_for_frame:
  "scan_for ps S sp ctx clock acc = Some (acc', qs) \<Longrightarrow> fst acc' = fst acc \<Longrightarrow> snd acc' = snd acc"
proof (induction ps arbitrary: acc qs)
  case Nil
  then show ?case by simp
next
  case (Cons p ps)
  from Cons.prems(1) obtain hs and R' :: regexp and ps' where
    sf: "scan_for ps S sp ctx clock (foldl (\<lambda>a h. scan_body p (fst h) (snd h) sp ctx clock a) acc hs) = Some (acc', ps')"
    by (rule scan_for_Cons_Some)
  obtain ms where ms: "fst (foldl (\<lambda>a h. scan_body p (fst h) (snd h) sp ctx clock a) acc hs) = fst acc @ ms"
    using fold_body_prefix by blast
  obtain ms' where ms': "fst acc' = fst (foldl (\<lambda>a h. scan_body p (fst h) (snd h) sp ctx clock a) acc hs) @ ms'"
    using scan_for_prefix [OF sf] ..
  from ms ms' Cons.prems(2) have e: "fst (foldl (\<lambda>a h. scan_body p (fst h) (snd h) sp ctx clock a) acc hs) = fst acc"
    and e': "fst acc' = fst (foldl (\<lambda>a h. scan_body p (fst h) (snd h) sp ctx clock a) acc hs)"
    by auto
  from Cons.IH [OF sf e'] fold_body_frame [OF e] show ?case by simp
qed

lemma scan_for_total:
  "(\<And>p. p \<in> set ps \<Longrightarrow> exec_all ((regex p)\<lparr>lastIndex := 0\<rparr>) S \<noteq> None) \<Longrightarrow>
   scan_for ps S sp ctx clock acc \<noteq> None"
proof (induction ps arbitrary: acc)
  case Nil
  show ?case by simp
next
  case (Cons p ps)
  from Cons.prems [of p] obtain hs R' where "exec_all ((regex p)\<lparr>lastIndex := 0\<rparr>) S = Some (hs, R')"
    by auto
  moreover have "scan_for ps S sp ctx clock a \<noteq> None" for a
    using Cons.IH Cons.prems by simp
  ultimately show ?case
    by (auto simp: scan_while_exec_all split: option.splits)
qed

lemma scan_for_reset:
  "scan_for ps S sp ctx clock acc = Some (acc', qs) \<Longrightarrow> reset_cursors qs = reset_cursors ps"
proof (induction ps arbitrary: acc qs)
  case Nil
  then show ?case by simp
next
  case (Cons p ps)
  from Cons.prems obtain hs and R' :: regexp and ps' where
    ea: "exec_all ((regex p)\<lparr>lastIndex := 0\<rparr>) S = Some (hs, R')" and
    sf: "scan_for ps S sp ctx clock (foldl (\<lambda>a h. scan_body p (fst h) (snd h) sp ctx clock a) acc hs) = Some (acc', ps')"
    and qs: "qs = p\<lparr>regex := R'\<rparr> # ps'"
    by (rule scan_for_Cons_Some)
  from exec_all_same [OF ea] have "R'\<lparr>lastIndex := 0\<rparr> = (regex p)\<lparr>lastIndex := 0\<rparr>"
    by (cases R', cases "regex p") simp
  with Cons.IH [OF sf] qs show ?case by (simp add: reset_cursors_def)
qed

lemma scan_body_regex_upd [simp]:
  "scan_body (p\<lparr>regex := R\<rparr>) = scan_body p"
  by (simp add: fun_eq_iff scan_body_def new_match_def standard_match_def)

lemma scan_while_regex_upd [simp]:
  "scan_while (p\<lparr>regex := R0\<rparr>) = scan_while p"
  by (simp add: fun_eq_iff scan_while_exec_all cong: option.case_cong)

lemma scan_for_reset_input:
  "scan_for (reset_cursors ps) S sp ctx clock acc = scan_for ps S sp ctx clock acc"
proof (induction ps arbitrary: acc)
  case Nil
  show ?case by (simp add: reset_cursors_def)
next
  case (Cons p ps)
  have "\<And>a. scan_for (map (\<lambda>p. p\<lparr>regex := (regex p)\<lparr>lastIndex := 0\<rparr>\<rparr>) ps) S sp ctx clock a
      = scan_for ps S sp ctx clock a"
    using Cons.IH by (simp add: reset_cursors_def)
  then show ?case
    by (simp add: reset_cursors_def cong: option.case_cong prod.case_cong)
qed

subsection \<open>The removal of duplicates\<close>

lemma findIndex_found:
  "findIndex P xs = int i \<Longrightarrow> i < length xs \<and> P (xs ! i) \<and> (\<forall>j<i. \<not> P (xs ! j))"
proof (induction xs arbitrary: i)
  case Nil
  then show ?case by simp
next
  case (Cons x xs)
  show ?case
  proof (cases "P x")
    case True
    with Cons.prems show ?thesis by simp
  next
    case False
    with Cons.prems have k: "0 \<le> findIndex P xs" and e: "findIndex P xs + 1 = int i"
      by (auto simp: Let_def split: if_splits)
    then obtain i' where i: "i = Suc i'" and f: "findIndex P xs = int i'"
      by (cases i) auto
    from Cons.IH [OF f] False i show ?thesis
      by (auto simp: nth_Cons less_Suc_eq_0_disj split: nat.splits)
  qed
qed

lemma findIndex_first:
  "i < length xs \<Longrightarrow> P (xs ! i) \<Longrightarrow> (\<forall>j<i. \<not> P (xs ! j)) \<Longrightarrow> findIndex P xs = int i"
proof (induction xs arbitrary: i)
  case Nil
  then show ?case by simp
next
  case (Cons x xs)
  show ?case
  proof (cases i)
    case 0
    with Cons.prems show ?thesis by simp
  next
    case (Suc i')
    with Cons.prems have "\<not> P x" by auto
    moreover from Cons.prems Suc have "findIndex P xs = int i'"
      by (intro Cons.IH) auto
    ultimately show ?thesis using Suc by (simp add: Let_def)
  qed
qed

lemma findIndex_exists:
  "x \<in> set xs \<Longrightarrow> P x \<Longrightarrow> \<exists>i. findIndex P xs = int i"
proof (induction xs)
  case Nil
  then show ?case by simp
next
  case (Cons y ys)
  show ?case
  proof (cases "P y")
    case True
    then have "findIndex P (y # ys) = int 0" by simp
    then show ?thesis ..
  next
    case False
    with Cons obtain i where "findIndex P ys = int i" by auto
    with False have "findIndex P (y # ys) = int (Suc i)" by (simp add: Let_def)
    then show ?thesis ..
  qed
qed

lemma same_key_iff:
  "same_key m x \<longleftrightarrow>
     match_key x = match_key m \<and> get_prop m ''pattern'' \<noteq> VNaN \<and> get_prop m ''position'' \<noteq> VNaN"
  by (auto simp: same_key_def match_key_def strict_eq_def)

lemma same_key_cong:
  "match_key m' = match_key m \<Longrightarrow> same_key m' = same_key m"
  by (auto simp: fun_eq_iff same_key_iff) (auto simp: match_key_def)

lemma unique_matches_iff:
  "m \<in> set (unique_matches arr) \<longleftrightarrow>
     (\<exists>i<length arr. arr ! i = m \<and> findIndex (same_key m) arr = int i)"
  by (force simp: unique_matches_def in_set_enumerate_eq image_iff)

lemma unique_matches_subset:
  "set (unique_matches arr) \<subseteq> set arr"
  by (auto simp: unique_matches_iff)

lemma unique_matches_Nil [simp]:
  "unique_matches [] = []"
  by (simp add: unique_matches_def)

lemma unique_matches_distinct:
  "distinct (map match_key (unique_matches arr))"
proof -
  let ?Q = "\<lambda>(i, m). findIndex (same_key m) arr = int i"
  let ?E = "filter ?Q (enumerate 0 arr)"
  have inj: "inj_on (match_key \<circ> snd) (set ?E)"
  proof (rule inj_onI)
    fix a b
    assume a: "a \<in> set ?E" and b: "b \<in> set ?E" and k: "(match_key \<circ> snd) a = (match_key \<circ> snd) b"
    obtain i m where am: "a = (i, m)" by (cases a)
    obtain j m' where bm: "b = (j, m')" by (cases b)
    from a am have mi: "arr ! i = m" "i < length arr" and fi: "findIndex (same_key m) arr = int i"
      by (auto simp: in_set_enumerate_eq)
    from b bm have mj: "arr ! j = m'" "j < length arr" and fj: "findIndex (same_key m') arr = int j"
      by (auto simp: in_set_enumerate_eq)
    from k am bm have key: "match_key m = match_key m'" by simp
    from findIndex_found [OF fi] mi have "same_key m m" by simp
    with key have s1: "same_key m m'" by (simp add: same_key_iff)
    from findIndex_found [OF fj] mj have "same_key m' m'" by simp
    with key have s2: "same_key m' m" by (simp add: same_key_iff)
    have "i = j"
    proof (rule ccontr)
      assume "i \<noteq> j"
      then consider "i < j" | "j < i" by linarith
      then show False
      proof cases
        case 1
        with findIndex_found [OF fj] mi s2 show False by auto
      next
        case 2
        with findIndex_found [OF fi] mj s1 show False by auto
      qed
    qed
    with mi mj am bm show "a = b" by simp
  qed
  have "distinct ?E" by simp
  with inj have "distinct (map (match_key \<circ> snd) ?E)" by (simp add: distinct_map)
  then show ?thesis by (simp add: unique_matches_def)
qed

lemma unique_matches_keeps_key:
  assumes "m \<in> set arr" and "same_key m m"
  shows "\<exists>m'\<in>set (unique_matches arr). match_key m' = match_key m"
proof -
  from findIndex_exists [where P = "same_key m", OF assms] obtain i where fi: "findIndex (same_key m) arr = int i" ..
  from findIndex_found [OF fi] have i: "i < length arr" and s: "same_key m (arr ! i)" by auto
  from s have key: "match_key (arr ! i) = match_key m" by (simp add: same_key_iff)
  from fi same_key_cong [OF key] have "findIndex (same_key (arr ! i)) arr = int i" by simp
  with i have "arr ! i \<in> set (unique_matches arr)" by (auto simp: unique_matches_iff)
  with key show ?thesis by blast
qed

lemma unique_matches_eq_Nil:
  assumes "unique_matches arr = []" and "\<And>m. m \<in> set arr \<Longrightarrow> same_key m m"
  shows "arr = []"
proof (rule ccontr)
  assume "arr \<noteq> []"
  then obtain m where m: "m \<in> set arr" by (cases arr) auto
  from unique_matches_keeps_key [OF m assms(2) [OF m]] assms(1) show False by simp
qed

subsection \<open>Properties of a pushed Match\<close>

lemma new_match_field:
  "new_match p i v sp now ctx f = (case ctx f of None \<Rightarrow> standard_match p i v sp now f | Some x \<Rightarrow> Some x)"
  by (simp add: new_match_def map_add_def)

lemma get_prop_new_match:
  "get_prop (new_match p i v sp now ctx) f =
     (case ctx f of None \<Rightarrow> get_prop (standard_match p i v sp now) f | Some x \<Rightarrow> x)"
  by (simp add: get_prop_def new_match_field split: option.splits)

lemma get_prop_standard:
  "get_prop (standard_match p i v sp now) ''pattern'' = VStr (name p)"
  "get_prop (standard_match p i v sp now) ''severity'' = VStr (severity p)"
  "get_prop (standard_match p i v sp now) ''position'' = VNum (int i)"
  "get_prop (standard_match p i v sp now) ''length'' = VNum (int (length v))"
  "get_prop (standard_match p i v sp now) ''preview'' = VStr (preview_of v)"
  "get_prop (standard_match p i v sp now) ''scanPoint'' = VStr sp"
  "get_prop (standard_match p i v sp now) ''timestamp'' = VStr now"
  by (simp_all add: get_prop_def standard_match_def)

lemma new_match_same_key:
  "ctx ''pattern'' \<noteq> Some VNaN \<Longrightarrow> ctx ''position'' \<noteq> Some VNaN \<Longrightarrow>
   same_key (new_match p i v sp now ctx) (new_match p i v sp now ctx)"
  by (auto simp: same_key_iff get_prop_new_match get_prop_standard split: option.splits)

subsection \<open>\<open>hasLeak\<close> and the matches of the rules\<close>

lemma hits_Nil_iff:
  "hits R S \<noteq> [] \<Longrightarrow> fst (exec (R\<lparr>lastIndex := 0\<rparr>) S) \<noteq> None"
  by (cases "exec (R\<lparr>lastIndex := 0\<rparr>) S")
     (auto simp: hits_def exec_all.simps [of "R\<lparr>lastIndex := 0\<rparr>" S] split: option.splits if_splits)

lemma hasLeak_for_iff:
  "fst (hasLeak_for ps S) \<longleftrightarrow> (\<exists>p\<in>set ps. fst (exec ((regex p)\<lparr>lastIndex := 0\<rparr>) S) \<noteq> None)"
  by (induction ps) (auto split: prod.splits option.splits)

subsection \<open>What a match of a pattern consumes\<close>

lemma advances_refl [simp]: "advances 0 cur cur"
  by (simp add: advances_def)

lemma advances_trans:
  "advances k1 cur c1 \<Longrightarrow> advances k2 c1 c \<Longrightarrow> advances (k1 + k2) cur c"
  by (auto simp: advances_def)

lemma advances_mono:
  "advances k cur c \<Longrightarrow> k' \<le> k \<Longrightarrow> advances k' cur c"
  by (auto simp: advances_def)

lemma lit_advances:
  "lit ic s cur = Some c \<Longrightarrow> advances (length s) cur c"
proof (induction ic s cur rule: lit.induct)
  case (1 ic cur)
  then show ?case by simp
next
  case (2 ic a as n p)
  then show ?case by simp
next
  case (3 ic a as n p c' cs)
  then show ?case
    by (auto simp: advances_def split: if_splits)
qed

lemma rep_advances:
  fixes f :: "cursor \<Rightarrow> cursor list" and kf :: nat
  shows "(\<And>cur' c'. c' \<in> set (f cur') \<Longrightarrow> advances kf cur' c') \<Longrightarrow>
         c \<in> set (rep f mn mx fuel cur) \<Longrightarrow>
         advances ((case mx of None \<Rightarrow> mn | Some m \<Rightarrow> min mn m) * kf) cur c"
    and "(\<And>cur' c'. c' \<in> set (f cur') \<Longrightarrow> advances kf cur' c') \<Longrightarrow>
         (\<And>x. x \<in> set xs \<Longrightarrow> kf \<le> fst x \<and> fst x + length (snd (snd x)) = L) \<Longrightarrow>
         mx \<noteq> Some 0 \<Longrightarrow>
         c \<in> set (rep_each f mn mx fuel n xs) \<Longrightarrow>
         n + (case mx of None \<Rightarrow> mn | Some m \<Rightarrow> min mn m) * kf \<le> fst c \<and>
         fst c + length (snd (snd c)) = n + L"
proof (induction f mn mx fuel cur and f mn mx fuel n xs arbitrary: c and c L rule: rep_rep_each.induct)
  case (1 f mn mx fuel cur)
  show ?case
  proof (cases "mx = Some 0")
    case True
    with "1.prems" show ?thesis by (simp add: rep.simps)
  next
    case False
    have xs: "\<And>x. x \<in> set (f (0, snd cur)) \<Longrightarrow>
        kf \<le> fst x \<and> fst x + length (snd (snd x)) = length (snd (snd cur))"
      using "1.prems"(1) [of _ "(0, snd cur)"] by (auto simp: advances_def)
    show ?thesis
    proof (cases "mn = 0")
      case True
      from "1.prems"(2) False True
      consider "c \<in> set (rep_each f mn mx fuel (fst cur) (f (0, snd cur)))" | "c = cur"
        by (auto simp: rep.simps)
      then show ?thesis
      proof cases
        case 1
        from "1.IH"(2) [OF False _ "1.prems"(1) xs False 1] True
        show ?thesis by (auto simp: advances_def)
      next
        case 2
        with True show ?thesis by (simp add: advances_def split: option.splits)
      qed
    next
      case mn: False
      from "1.prems"(2) False mn
      have "c \<in> set (rep_each f mn mx fuel (fst cur) (f (0, snd cur)))"
        by (auto simp: rep.simps)
      from "1.IH"(1) [OF False mn "1.prems"(1) xs False this]
      show ?thesis by (auto simp: advances_def)
    qed
  qed
next
  case (2 f mn mx fuel n)
  then show ?case by simp
next
  case (3 f mn mx fuel n k c' cs)
  have k: "kf \<le> k" and L: "k + length (snd c') = L"
    using "3.prems"(2) [of "(k, c')"] by auto
  have q: "(case map_option (\<lambda>m. m - 1) mx of None \<Rightarrow> mn - 1 | Some m \<Rightarrow> min (mn - 1) m) + 1
      = (case mx of None \<Rightarrow> mn | Some m \<Rightarrow> min mn m)" if "mn \<noteq> 0"
    using that "3.prems"(3) by (cases mx) auto
  from "3.prems"(4) consider
      (a) "mn \<noteq> 0" "c \<in> set (rep f (mn - 1) (map_option (\<lambda>m. m - 1) mx) fuel (k + n, c'))"
    | (b) u fuel' where "mn = 0" "k \<noteq> 0" "fuel = u # fuel'"
          "c \<in> set (rep f 0 (map_option (\<lambda>m. m - 1) mx) fuel' (k + n, c'))"
    | (c) "c \<in> set (rep_each f mn mx fuel n cs)"
    by (auto split: if_splits list.splits)
  then show ?case
  proof cases
    case a
    from "3.IH"(1) [OF a(1) "3.prems"(1) a(2)]
    have adv: "advances ((case map_option (\<lambda>m. m - 1) mx of None \<Rightarrow> mn - 1 | Some m \<Rightarrow> min (mn - 1) m) * kf)
        (k + n, c') c" .
    have "(case mx of None \<Rightarrow> mn | Some m \<Rightarrow> min mn m) * kf
        = (case map_option (\<lambda>m. m - 1) mx of None \<Rightarrow> mn - 1 | Some m \<Rightarrow> min (mn - 1) m) * kf + kf"
      using q [OF a(1)] by (metis add.commute mult_Suc Suc_eq_plus1)
    with adv k L show ?thesis by (auto simp: advances_def)
  next
    case b
    from "3.IH"(2) [OF _ b(2,3) "3.prems"(1) b(4)] b(1)
    have "advances ((case map_option (\<lambda>m. m - 1) mx of None \<Rightarrow> 0 | Some m \<Rightarrow> min 0 m) * kf)
        (k + n, c') c" by simp
    with b(1) L show ?thesis by (auto simp: advances_def split: option.splits)
  next
    case c
    from "3.IH"(3) [OF "3.prems"(1) _ "3.prems"(3) c] "3.prems"(2)
    show ?thesis by auto
  qed
qed

lemma ends_advances:
  "c \<in> set (ends r ic ml cur) \<Longrightarrow> advances (minlen r) cur c"
proof (induction r arbitrary: cur c)
  case (Str s)
  then show ?case by (cases "lit ic s cur") (auto dest: lit_advances)
next
  case (Cls A)
  then show ?case by (cases cur) (auto simp: advances_def split: list.splits if_splits)
next
  case (NCls A)
  then show ?case by (cases cur) (auto simp: advances_def split: list.splits if_splits)
next
  case Dot
  then show ?case by (cases cur) (auto simp: advances_def split: list.splits if_splits)
next
  case (Seq a b)
  from Seq.prems obtain c1 where "c1 \<in> set (ends a ic ml cur)" "c \<in> set (ends b ic ml c1)"
    by auto
  then show ?case using Seq.IH(1) [of c1 cur] Seq.IH(2) [of c c1]
    by (auto intro: advances_trans)
next
  case (Alt a b)
  from Alt.prems have "c \<in> set (ends a ic ml cur) \<or> c \<in> set (ends b ic ml cur)" by simp
  with Alt.IH(1) [of c cur] Alt.IH(2) [of c cur]
  have "advances (minlen a) cur c \<or> advances (minlen b) cur c" by blast
  then show ?case by (auto intro: advances_mono)
next
  case (Rep r mn mx)
  from Rep.prems have "c \<in> set (rep (ends r ic ml) mn mx (snd (snd cur)) cur)" by simp
  from rep_advances(1) [of "ends r ic ml" "minlen r", OF Rep.IH this]
  show ?case by simp
next
  case (Ahead r)
  then show ?case by (auto split: list.splits)
next
  case WordB
  then show ?case by (auto simp: Let_def split: if_splits)
next
  case Bol
  then show ?case by (auto split: option.splits if_splits)
next
  case Eol
  then show ?case by (auto split: list.splits if_splits)
qed

lemma compile_bounds:
  assumes "compile r ic ml bef rest = Some l"
  shows "minlen r \<le> l \<and> l \<le> length rest"
proof -
  let ?cur = "(0, (case bef of [] \<Rightarrow> None | c # cs \<Rightarrow> Some c), rest)"
  from assms obtain c cs where e: "ends r ic ml ?cur = c # cs" and l: "l = fst c"
    by (auto simp: compile_def split: list.splits)
  then have "c \<in> set (ends r ic ml ?cur)" by simp
  from ends_advances [OF this] l show ?thesis by (auto simp: advances_def)
qed

subsection \<open>The loop of \<open>scan\<close> ends on the built-in rules\<close>

lemma productive_re:
  "0 < minlen r \<Longrightarrow> CHR ''g'' \<in> set flags \<Longrightarrow> productive (re r flags)"
  by (auto simp: productive_def re_def split: option.splits dest!: compile_bounds)

lemma productive_cursor [simp]:
  "productive (R\<lparr>lastIndex := n\<rparr>) = productive R"
  by (simp add: productive_def)

lemma find_first_nonempty:
  assumes ne: "\<And>bef rest. case m bef rest of None \<Rightarrow> True | Some l \<Rightarrow> take l rest \<noteq> []"
  shows "find_first m bef rest i = Some (j, v) \<Longrightarrow> v \<noteq> []"
proof (induction rest arbitrary: bef i)
  case Nil
  with ne [where bef = bef and rest = "[]"] show ?case by (auto split: option.splits)
next
  case (Cons c cs)
  with ne [where bef = bef and rest = "c # cs"] show ?case by (auto split: option.splits)
qed

lemma exec_all_total:
  "productive R \<Longrightarrow> exec_all R S \<noteq> None"
proof (induction R S rule: exec_all.induct)
  case (1 R S)
  obtain x R1 where ex: "exec R S = (x, R1)" by (cases "exec R S")
  show ?case
  proof (cases x)
    case None
    with ex show ?thesis by (simp add: exec_all.simps [of R S])
  next
    case (Some h)
    obtain i v where h: "h = (i, v)" by (cases h)
    from "1.prems" have g: "global R" by (simp add: productive_def)
    from ex Some h have ex': "exec R S = (Some (i, v), R1)" by simp
    from ex' have "\<exists>bef rest k. find_first (matcher R) bef rest k = Some (i, v)"
      by (auto simp: exec_def Let_def split: if_splits option.splits)
    then obtain bef rest k where "find_first (matcher R) bef rest k = Some (i, v)" by blast
    moreover from "1.prems"
    have "\<And>bef rest. case matcher R bef rest of None \<Rightarrow> True | Some l \<Rightarrow> take l rest \<noteq> []"
      by (simp add: productive_def)
    ultimately have "v \<noteq> []" by (rule find_first_nonempty [rotated])
    with exec_Some_global [OF ex' g] have lt: "lastIndex R < lastIndex R1"
      by (cases v) auto
    from exec_same [OF ex] "1.prems" have "productive R1" by (simp add: productive_def)
    from "1.IH" [OF ex [symmetric] Some _ this] g lt have "exec_all R1 S \<noteq> None" by simp
    with ex Some g lt show ?thesis by (auto simp: exec_all.simps [of R S])
  qed
qed

lemma scan_for_productive:
  "(\<And>p. p \<in> set ps \<Longrightarrow> productive (regex p)) \<Longrightarrow> scan_for ps S sp ctx clock acc \<noteq> None"
  by (rule scan_for_total) (simp add: exec_all_total)

lemma builtin_productive:
  "p \<in> set builtin_patterns \<Longrightarrow> productive (regex p)"
  unfolding builtin_patterns_def
  by (auto intro!: productive_re
        simp: cat_def opt_def star_def plus_def ws_def copula_def)

lemma builtin_names_distinct:
  "distinct (map name builtin_patterns)"
  by (simp add: builtin_patterns_def)

subsection \<open>The result of \<open>scan\<close> on a text\<close>

lemma scan_non_text:
  "\<not> is_string v \<or> v = VStr [] \<Longrightarrow>
   scan d v sp ctx clock = Some (\<lparr> leaked = False, matches = [], redacted = v, summary = None \<rparr>, d)"
  by (cases v) (auto simp: scan_def)

lemma scan_textE:
  assumes "scan d (VStr S) sp ctx clock = Some (r, d')" and "S \<noteq> []"
  obtains acc where "scan_for d S sp ctx clock ([], S) = Some (acc, d')"
    and "matches r = unique_matches (fst acc)"
    and "leaked r = (unique_matches (fst acc) \<noteq> [])"
    and "redacted r = VStr (snd acc)"
    and "summary r = (if unique_matches (fst acc) \<noteq> [] then Some (summary_of (unique_matches (fst acc)) sp) else None)"
  using assms
  by (auto simp: scan_def Let_def split: option.splits)

lemma scan_text_total:
  assumes "\<And>p. p \<in> set d \<Longrightarrow> productive (regex p)"
  shows "\<exists>r d'. scan d t sp ctx clock = Some (r, d')"
proof (cases "\<not> is_string t \<or> t = VStr []")
  case True
  from scan_non_text [OF this] show ?thesis by blast
next
  case False
  then obtain S where t: "t = VStr S" "S \<noteq> []" by (cases t) auto
  from scan_for_productive [of d S sp ctx clock "([], S)"] assms
  obtain x where "scan_for d S sp ctx clock ([], S) = Some x" by auto
  with t show ?thesis by (cases x) (simp add: scan_def Let_def)
qed

lemma scan_match_origin:
  assumes "scan d (VStr S) sp ctx clock = Some (r, d')" and "m \<in> set (matches r)"
  shows "\<exists>p\<in>set d. \<exists>h\<in>set (hits (regex p) S). \<exists>k.
           12 \<le> length (snd h) \<and> m = new_match p (fst h) (snd h) sp (clock k) ctx"
proof (cases "S = []")
  case True
  with assms scan_non_text [of "VStr S" d sp ctx clock] show ?thesis by auto
next
  case False
  from assms(1) False obtain acc where sf: "scan_for d S sp ctx clock ([], S) = Some (acc, d')"
    and ms: "matches r = unique_matches (fst acc)"
    by (rule scan_textE)
  from assms(2) ms unique_matches_subset have "m \<in> set (fst acc)" by auto
  from scan_for_origin [OF sf this] show ?thesis by simp
qed

lemma scan_not_leaked:
  assumes "scan d t sp ctx clock = Some (r, d')" and "\<not> leaked r"
    and "ctx ''pattern'' \<noteq> Some VNaN" and "ctx ''position'' \<noteq> Some VNaN"
  shows "matches r = [] \<and> redacted r = t \<and> summary r = None"
proof (cases "\<not> is_string t \<or> t = VStr []")
  case True
  from scan_non_text [OF this] assms(1) show ?thesis by auto
next
  case False
  then obtain S where t: "t = VStr S" "S \<noteq> []" by (cases t) auto
  from assms(1) t obtain acc where sf: "scan_for d S sp ctx clock ([], S) = Some (acc, d')"
    and ms: "matches r = unique_matches (fst acc)"
    and lk: "leaked r = (unique_matches (fst acc) \<noteq> [])"
    and rd: "redacted r = VStr (snd acc)"
    and sm: "summary r = (if unique_matches (fst acc) \<noteq> [] then Some (summary_of (unique_matches (fst acc)) sp) else None)"
    by (auto elim: scan_textE)
  from lk assms(2) have u: "unique_matches (fst acc) = []" by simp
  have "same_key m m" if "m \<in> set (fst acc)" for m
    using scan_for_origin [OF sf that] assms(3,4) by (auto intro: new_match_same_key)
  with u have "fst acc = []" by (rule unique_matches_eq_Nil)
  with scan_for_frame [OF sf] have "snd acc = S" by simp
  with u ms rd sm t show ?thesis by simp
qed

lemma scan_leaked_hasLeak:
  assumes "scan d t sp ctx clock = Some (r, d')" and "leaked r"
  shows "fst (hasLeak d t)"
proof (cases "\<not> is_string t \<or> t = VStr []")
  case True
  from scan_non_text [OF this] assms show ?thesis by auto
next
  case False
  then obtain S where t: "t = VStr S" "S \<noteq> []" by (cases t) auto
  from assms(1) t obtain acc where sf: "scan_for d S sp ctx clock ([], S) = Some (acc, d')"
    and lk: "leaked r = (unique_matches (fst acc) \<noteq> [])"
    by (auto elim: scan_textE)
  from lk assms(2) obtain m where "m \<in> set (unique_matches (fst acc))"
    by (cases "unique_matches (fst acc)") auto
  with unique_matches_subset have "m \<in> set (fst acc)" by auto
  from scan_for_origin [OF sf this] obtain p h where "p \<in> set d" "h \<in> set (hits (regex p) S)"
    by auto
  then have "p \<in> set d" "hits (regex p) S \<noteq> []" by auto
  with hits_Nil_iff have "\<exists>p\<in>set d. fst (exec ((regex p)\<lparr>lastIndex := 0\<rparr>) S) \<noteq> None" by blast
  with t show ?thesis by (simp add: hasLeak_def hasLeak_for_iff)
qed

lemma scan_reports_hit:
  assumes sc: "scan d (VStr S) sp ctx clock = Some (r, d')"
    and p: "p \<in> set d" and h: "h \<in> set (hits (regex p) S)" and len: "12 \<le> length (snd h)"
    and ctx: "ctx ''pattern'' = None" "ctx ''position'' = None"
  shows "\<exists>m\<in>set (matches r). \<exists>q\<in>set d. \<exists>g\<in>set (hits (regex q) S). \<exists>k.
           m = new_match q (fst g) (snd g) sp (clock k) ctx \<and> name q = name p \<and> fst g = fst h"
proof -
  from hits_substring [OF h] len have ne: "S \<noteq> []" by auto
  from sc ne obtain acc where sf: "scan_for d S sp ctx clock ([], S) = Some (acc, d')"
    and ms: "matches r = unique_matches (fst acc)"
    by (rule scan_textE)
  from scan_for_complete [OF sf p h len] obtain k
    where m0: "new_match p (fst h) (snd h) sp (clock k) ctx \<in> set (fst acc)" ..
  let ?m0 = "new_match p (fst h) (snd h) sp (clock k) ctx"
  from ctx have "same_key ?m0 ?m0" by (intro new_match_same_key) auto
  from unique_matches_keeps_key [OF m0 this] obtain m
    where m: "m \<in> set (unique_matches (fst acc))" and key: "match_key m = match_key ?m0" by blast
  from m unique_matches_subset have "m \<in> set (fst acc)" by auto
  from scan_for_origin [OF sf this] obtain q g j where q: "q \<in> set d" and g: "g \<in> set (hits (regex q) S)"
    and mq: "m = new_match q (fst g) (snd g) sp (clock j) ctx"
    by auto
  from key mq ctx have "name q = name p" "fst g = fst h"
    by (auto simp: match_key_def get_prop_new_match get_prop_standard)
  with m ms q g mq show ?thesis by metis
qed

subsection \<open>The matches that \<open>replace\<close> collects\<close>

lemma exec_Some_bounds:
  assumes "exec R S = (Some (i, v), R')"
  shows "i + length v \<le> length S" and "v = take (length v) (drop i S)"
proof -
  from assms show "i + length v \<le> length S"
    by (auto simp: exec_def Let_def split: if_splits option.splits dest!: find_first_bounds)
  from assms show "v = take (length v) (drop i S)" by (rule exec_substring)
qed

lemma replace_collect_same:
  "matcher (snd (replace_collect R S acc)) = matcher R \<and> global (snd (replace_collect R S acc)) = global R"
proof (induction R S acc rule: replace_collect.induct)
  case (1 R S results)
  obtain x R1 where ex: "exec R S = (x, R1)" by (cases "exec R S")
  show ?case
  proof (cases x)
    case None
    with ex exec_same [OF ex] show ?thesis by (simp add: replace_collect.simps [of R S])
  next
    case (Some h)
    show ?thesis
    proof (cases "global R")
      case True
      from "1.IH" [OF ex [symmetric] Some True] exec_same [OF ex] ex Some True show ?thesis
        by (auto simp: replace_collect.simps [of R S] split: if_splits)
    next
      case False
      with ex Some exec_same [OF ex] show ?thesis
        by (auto simp: replace_collect.simps [of R S])
    qed
  qed
qed

lemma replace_collect_acc:
  "replace_collect R S acc = (acc @ fst (replace_collect R S []), snd (replace_collect R S []))"
proof -
  have "\<forall>acc'. replace_collect R S acc' = (acc' @ fst (replace_collect R S []), snd (replace_collect R S []))"
  proof (rule replace_collect.induct
      [where P = "\<lambda>R S acc. \<forall>acc'. replace_collect R S acc'
          = (acc' @ fst (replace_collect R S []), snd (replace_collect R S []))"
        and ?a0.0 = R and ?a1.0 = S and ?a2.0 = "[]"], intro allI)
    fix R S and results acc' :: "(nat \<times> string) list"
    assume IH: "\<And>x y x2. (x, y) = exec R S \<Longrightarrow> x = Some x2 \<Longrightarrow> global R \<Longrightarrow>
       \<forall>acc'. replace_collect (if snd x2 = [] then y\<lparr>lastIndex := lastIndex y + 1\<rparr> else y) S acc'
          = (acc' @ fst (replace_collect (if snd x2 = [] then y\<lparr>lastIndex := lastIndex y + 1\<rparr> else y) S []),
             snd (replace_collect (if snd x2 = [] then y\<lparr>lastIndex := lastIndex y + 1\<rparr> else y) S []))"
    obtain x R1 where ex: "exec R S = (x, R1)" by (cases "exec R S")
    show "replace_collect R S acc' = (acc' @ fst (replace_collect R S []), snd (replace_collect R S []))"
    proof (cases x)
      case None
      with ex show ?thesis by (simp add: replace_collect.simps [of R S])
    next
      case (Some h)
      show ?thesis
      proof (cases "global R")
        case True
        let ?R2 = "if snd h = [] then R1\<lparr>lastIndex := lastIndex R1 + 1\<rparr> else R1"
        from IH [OF ex [symmetric] Some True]
        have a: "replace_collect ?R2 S (acc' @ [h]) = ((acc' @ [h]) @ fst (replace_collect ?R2 S []), snd (replace_collect ?R2 S []))"
          and b: "replace_collect ?R2 S [h] = ([h] @ fst (replace_collect ?R2 S []), snd (replace_collect ?R2 S []))"
          by blast+
        from ex Some True have "replace_collect R S acc' = replace_collect ?R2 S (acc' @ [h])"
          and "replace_collect R S [] = replace_collect ?R2 S [h]"
          by (simp_all add: replace_collect.simps [of R S])
        with a b show ?thesis by simp
      next
        case False
        with ex Some show ?thesis by (simp add: replace_collect.simps [of R S])
      qed
    qed
  qed
  then show ?thesis by blast
qed

lemma chained_mono:
  "chained S n hs \<Longrightarrow> n' \<le> n \<Longrightarrow> chained S n' hs"
  by (cases hs) auto

lemma replace_collect_chained:
  "global R \<longrightarrow> chained S (lastIndex R) (fst (replace_collect R S []))"
proof (rule replace_collect.induct
    [where P = "\<lambda>R S acc. global R \<longrightarrow> chained S (lastIndex R) (fst (replace_collect R S []))"
      and ?a0.0 = R and ?a1.0 = S and ?a2.0 = "[]"], intro impI)
  fix R S and results :: "(nat \<times> string) list"
  assume IH: "\<And>x y x2. (x, y) = exec R S \<Longrightarrow> x = Some x2 \<Longrightarrow> global R \<Longrightarrow>
     global (if snd x2 = [] then y\<lparr>lastIndex := lastIndex y + 1\<rparr> else y) \<longrightarrow>
     chained S (lastIndex (if snd x2 = [] then y\<lparr>lastIndex := lastIndex y + 1\<rparr> else y))
       (fst (replace_collect (if snd x2 = [] then y\<lparr>lastIndex := lastIndex y + 1\<rparr> else y) S []))"
    and gl: "global R"
  obtain x R1 where ex: "exec R S = (x, R1)" by (cases "exec R S")
  show "chained S (lastIndex R) (fst (replace_collect R S []))"
  proof (cases x)
    case None
    with ex show ?thesis by (simp add: replace_collect.simps [of R S])
  next
    case (Some h)
    obtain i v where h: "h = (i, v)" by (cases h)
    let ?R2 = "if snd h = [] then R1\<lparr>lastIndex := lastIndex R1 + 1\<rparr> else R1"
    from ex Some h have ex': "exec R S = (Some (i, v), R1)" by simp
    note g = exec_Some_global [OF ex' gl]
    note b = exec_Some_bounds [OF ex']
    from exec_same [OF ex] gl have g2: "global ?R2" by simp
    have rc: "fst (replace_collect R S []) = h # fst (replace_collect ?R2 S [])"
      using ex Some gl replace_collect_acc [of ?R2 S "[h]"]
      by (simp add: replace_collect.simps [of R S])
    from IH [OF ex [symmetric] Some gl] g2
    have "chained S (lastIndex ?R2) (fst (replace_collect ?R2 S []))" by blast
    moreover from g(2) h have "i + length v \<le> lastIndex ?R2" by simp
    ultimately have "chained S (i + length v) (fst (replace_collect ?R2 S []))"
      by (rule chained_mono)
    with rc h g(1) b show ?thesis by simp
  qed
qed

lemma occurrences_chained:
  "chained S 0 (occurrences R S)"
proof (cases "global R")
  case True
  with replace_collect_chained [of "R\<lparr>lastIndex := 0\<rparr>" S] show ?thesis
    by (simp add: occurrences_def)
next
  case False
  obtain x R1 where ex: "exec R S = (x, R1)" by (cases "exec R S")
  show ?thesis
  proof (cases x)
    case None
    with ex False show ?thesis by (simp add: occurrences_def replace_collect.simps [of R S])
  next
    case (Some h)
    obtain i v where h: "h = (i, v)" by (cases h)
    from ex Some h have "exec R S = (Some (i, v), R1)" by simp
    from exec_Some_bounds [OF this] ex Some h False show ?thesis
      by (simp add: occurrences_def replace_collect.simps [of R S])
  qed
qed

lemma occurrences_cursor [simp]:
  "occurrences (R\<lparr>lastIndex := n\<rparr>) S = occurrences R S"
proof (cases "global R")
  case True
  then show ?thesis by (simp add: occurrences_def)
next
  case False
  have "fst (exec (R\<lparr>lastIndex := n\<rparr>) S) = fst (exec R S)"
    using False by (simp add: exec_def Let_def split: option.splits)
  with False show ?thesis
    by (cases "exec (R\<lparr>lastIndex := n\<rparr>) S"; cases "exec R S")
       (auto simp: occurrences_def replace_collect.simps [of _ S "[]"] split: option.splits)
qed

lemma occurrences_substring:
  "h \<in> set (occurrences R S) \<Longrightarrow> snd h = take (length (snd h)) (drop (fst h) S)"
proof -
  have "chained S n hs \<Longrightarrow> h \<in> set hs \<Longrightarrow> snd h = take (length (snd h)) (drop (fst h) S)" for n hs
    by (induction hs arbitrary: n) auto
  from this [OF occurrences_chained] show "h \<in> set (occurrences R S) \<Longrightarrow> ?thesis" .
qed

subsection \<open>The text that \<open>replace\<close> assembles\<close>

lemma length_gaps [simp]:
  "length (gaps S n hs) = Suc (length hs)"
  by (induction hs arbitrary: n) auto

lemma replace_build_weave:
  "chained S n hs \<Longrightarrow> replace_build S f hs n acc = acc @ weave (gaps S n hs) (map (f \<circ> snd) hs)"
proof (induction hs arbitrary: n acc)
  case Nil
  show ?case by simp
next
  case (Cons h hs)
  obtain i v where h: "h = (i, v)" by (cases h)
  from Cons.prems h have c: "n \<le> i" "i + length v \<le> length S" "chained S (i + length v) hs"
    by auto
  then have "min i (length S) = i" by simp
  with Cons.IH [OF c(3)] c(1) h show ?case by (simp add: Let_def)
qed

lemma weave_gaps:
  "chained S n hs \<Longrightarrow> weave (gaps S n hs) (map snd hs) = drop n S"
proof (induction hs arbitrary: n)
  case Nil
  show ?case by simp
next
  case (Cons h hs)
  obtain i v where h: "h = (i, v)" by (cases h)
  from Cons.prems h have c: "n \<le> i" "i + length v \<le> length S" "v = take (length v) (drop i S)"
    "chained S (i + length v) hs"
    by auto
  have a: "drop n S = take (i - n) (drop n S) @ drop (i - n) (drop n S)"
    by (rule append_take_drop_id [symmetric])
  from c(1) have b: "drop (i - n) (drop n S) = drop i S" by simp
  have d: "drop i S = take (length v) (drop i S) @ drop (length v) (drop i S)"
    by (rule append_take_drop_id [symmetric])
  have e: "drop (length v) (drop i S) = drop (i + length v) S" by (simp add: add.commute)
  from a b d e c(3) have "drop n S = take (i - n) (drop n S) @ v @ drop (i + length v) S"
    by metis
  with Cons.IH [OF c(4)] h show ?case by simp
qed

lemma replace_regexp_occurrences:
  "fst (replace_regexp R S f) = replace_build S f (occurrences R S) 0 []"
  by (simp add: replace_regexp_def occurrences_def split: prod.splits)

lemma replace_regexp_weave:
  "fst (replace_regexp R S f) = weave (gaps S 0 (occurrences R S)) (map (f \<circ> snd) (occurrences R S))"
  by (simp add: replace_regexp_occurrences replace_build_weave [OF occurrences_chained])

lemma text_weave:
  "S = weave (gaps S 0 (occurrences R S)) (map snd (occurrences R S))"
  using weave_gaps [OF occurrences_chained, of S R] by simp

lemma replace_regexp_same:
  "matcher (snd (replace_regexp R S f)) = matcher R \<and> global (snd (replace_regexp R S f)) = global R"
  using replace_collect_same [of "if global R then R\<lparr>lastIndex := 0\<rparr> else R" S "[]"]
  by (cases "replace_collect (if global R then R\<lparr>lastIndex := 0\<rparr> else R) S []")
     (auto simp: replace_regexp_def split: if_splits)

lemma replace_regexp_identity:
  assumes "\<And>h. h \<in> set (occurrences R S) \<Longrightarrow> f (snd h) = snd h"
  shows "fst (replace_regexp R S f) = S"
proof -
  from assms have "map (f \<circ> snd) (occurrences R S) = map snd (occurrences R S)" by simp
  with replace_regexp_weave [of R S f] text_weave [of S R] show ?thesis by simp
qed

subsection \<open>The replacer of \<open>redact\<close>\<close>

lemma mask_short: "length m < 12 \<Longrightarrow> mask_value m = m"
  by (simp add: mask_value_def)

lemma mask_12: "length m = 12 \<Longrightarrow> mask_value m = replicate 12 CHR ''*''"
  by (simp add: mask_value_def)

lemma mask_long:
  "12 < length m \<Longrightarrow> mask_value m = take 4 m @ replicate (min (length m - 8) 16) CHR ''*'' @ last4 m"
  by (simp add: mask_value_def)

lemma mask_keeps_ends:
  "12 < length m \<Longrightarrow> take 4 (mask_value m) = take 4 m \<and> last4 (mask_value m) = last4 m"
  by (simp add: mask_value_def last4_def min_def)

lemma mask_fixed:
  assumes "12 \<le> length m" and "mask_value m = m"
  shows "length m \<le> 24 \<and> (\<forall>c\<in>set (take (length m - 8) (drop 4 m)). c = CHR ''*'')"
proof (cases "length m = 12")
  case True
  with assms(2) have "m = replicate 12 CHR ''*''" by (simp add: mask_12)
  then have "set m \<subseteq> {CHR ''*''}" by (metis set_replicate_conv_if subset_insertI order_refl)
  with True show ?thesis by (auto dest!: in_set_takeD in_set_dropD)
next
  case False
  with assms(1) have long: "12 < length m" by simp
  from assms(2) have "length (mask_value m) = length m" by simp
  with long have le: "length m \<le> 24" by (simp add: mask_value_def last4_def min_def split: if_splits)
  have m: "m = take 4 m @ take (length m - 8) (drop 4 m) @ last4 m"
  proof -
    have a: "m = take 4 m @ drop 4 m"
      by (rule append_take_drop_id [symmetric])
    have b: "drop 4 m = take (length m - 8) (drop 4 m) @ drop (length m - 8) (drop 4 m)"
      by (rule append_take_drop_id [symmetric])
    from long have c: "drop (length m - 8) (drop 4 m) = last4 m" by (simp add: last4_def)
    from a b c show ?thesis by metis
  qed
  from long le have "mask_value m = take 4 m @ replicate (length m - 8) CHR ''*'' @ last4 m"
    by (simp add: mask_long min_def)
  with assms(2) m have "take 4 m @ replicate (length m - 8) CHR ''*'' @ last4 m
      = take 4 m @ take (length m - 8) (drop 4 m) @ last4 m" by simp
  then have "take (length m - 8) (drop 4 m) = replicate (length m - 8) CHR ''*''" by simp
  then have "set (take (length m - 8) (drop 4 m)) \<subseteq> {CHR ''*''}"
    by (metis set_replicate_conv_if subset_insertI order_refl)
  with le show ?thesis by auto
qed

subsection \<open>The passes of \<open>redact\<close>\<close>

lemma redact_for_identity:
  "residual ps S = [] \<Longrightarrow> fst (redact_for ps S) = S"
proof (induction ps)
  case Nil
  show ?case by simp
next
  case (Cons p ps)
  from Cons.prems have q: "qualifying (regex p) S = []" and r: "residual ps S = []"
    by (simp_all add: residual_def)
  have "mask_value (snd h) = snd h" if "h \<in> set (occurrences ((regex p)\<lparr>lastIndex := 0\<rparr>) S)" for h
  proof -
    from that q have "\<not> 12 \<le> length (snd h)"
      by (auto simp: qualifying_def filter_empty_conv)
    then show ?thesis by (simp add: mask_short)
  qed
  then have "fst (replace_regexp ((regex p)\<lparr>lastIndex := 0\<rparr>) S mask_value) = S"
    by (rule replace_regexp_identity)
  with Cons.IH [OF r] show ?case
    by (cases "replace_regexp ((regex p)\<lparr>lastIndex := 0\<rparr>) S mask_value"; cases "redact_for ps S") auto
qed

subsection \<open>The search cursors between calls\<close>

lemma cursor_reset_eq:
  fixes R R' :: regexp
  shows "matcher R' = matcher R \<Longrightarrow> global R' = global R \<Longrightarrow> R'\<lparr>lastIndex := 0\<rparr> = R\<lparr>lastIndex := 0\<rparr>"
  by (cases R', cases R) simp

lemma reset_cursors_Cons:
  "reset_cursors (p # ps) = p\<lparr>regex := (regex p)\<lparr>lastIndex := 0\<rparr>\<rparr> # reset_cursors ps"
  by (simp add: reset_cursors_def)

lemma hasLeak_for_reset:
  "reset_cursors (snd (hasLeak_for ps S)) = reset_cursors ps"
proof (induction ps)
  case Nil
  show ?case by simp
next
  case (Cons p ps)
  obtain x R' where ex: "exec ((regex p)\<lparr>lastIndex := 0\<rparr>) S = (x, R')"
    by (cases "exec ((regex p)\<lparr>lastIndex := 0\<rparr>) S")
  from exec_same [OF ex] have "R'\<lparr>lastIndex := 0\<rparr> = (regex p)\<lparr>lastIndex := 0\<rparr>"
    by (intro cursor_reset_eq) auto
  with Cons ex show ?case
    by (cases x; cases "hasLeak_for ps S") (auto simp: reset_cursors_def)
qed

lemma hasLeak_for_reset_input:
  "fst (hasLeak_for (reset_cursors ps) S) = fst (hasLeak_for ps S)"
  by (simp add: hasLeak_for_iff reset_cursors_def)

lemma redact_for_reset:
  "reset_cursors (snd (redact_for ps S)) = reset_cursors ps"
proof (induction ps arbitrary: S)
  case Nil
  show ?case by simp
next
  case (Cons p ps)
  obtain out R' where rr: "replace_regexp ((regex p)\<lparr>lastIndex := 0\<rparr>) S mask_value = (out, R')"
    by (cases "replace_regexp ((regex p)\<lparr>lastIndex := 0\<rparr>) S mask_value")
  from replace_regexp_same [of "(regex p)\<lparr>lastIndex := 0\<rparr>" S mask_value] rr
  have "R'\<lparr>lastIndex := 0\<rparr> = (regex p)\<lparr>lastIndex := 0\<rparr>"
    by (intro cursor_reset_eq) auto
  with Cons [of out] rr show ?case
    by (cases "redact_for ps out") (auto simp: reset_cursors_def)
qed

lemma redact_for_reset_input:
  "redact_for (reset_cursors ps) S = redact_for ps S"
proof (induction ps arbitrary: S)
  case Nil
  show ?case by (simp add: reset_cursors_def)
next
  case (Cons p ps)
  have "\<And>a. redact_for (map (\<lambda>p. p\<lparr>regex := (regex p)\<lparr>lastIndex := 0\<rparr>\<rparr>) ps) a = redact_for ps a"
    using Cons.IH by (simp add: reset_cursors_def)
  then show ?case
    by (simp add: reset_cursors_def cong: prod.case_cong)
qed

lemma scan_reset:
  "scan d t sp ctx clock = Some (r, d') \<Longrightarrow> reset_cursors d' = reset_cursors d"
proof (cases "\<not> is_string t \<or> t = VStr []")
  case True
  assume "scan d t sp ctx clock = Some (r, d')"
  with scan_non_text [OF True] show ?thesis by simp
next
  case False
  assume sc: "scan d t sp ctx clock = Some (r, d')"
  from False obtain S where t: "t = VStr S" "S \<noteq> []" by (cases t) auto
  from sc t obtain acc where "scan_for d S sp ctx clock ([], S) = Some (acc, d')"
    by (auto elim: scan_textE)
  then show ?thesis by (rule scan_for_reset)
qed

lemma scan_reset_input:
  "map_option fst (scan (reset_cursors d) t sp ctx clock) = map_option fst (scan d t sp ctx clock)"
  by (simp add: scan_def scan_for_reset_input Let_def split: option.splits)

lemma hasLeak_reset:
  "reset_cursors (snd (hasLeak d t)) = reset_cursors d"
  by (simp add: hasLeak_def hasLeak_for_reset)

lemma hasLeak_reset_input:
  "fst (hasLeak (reset_cursors d) t) = fst (hasLeak d t)"
  by (simp add: hasLeak_def hasLeak_for_reset_input)

lemma redact_reset:
  "reset_cursors (snd (redact d t)) = reset_cursors d"
  using redact_for_reset [of d "the_string t"]
  by (cases "redact_for d (the_string t)") (simp add: redact_def)

lemma redact_reset_input:
  "fst (redact (reset_cursors d) t) = fst (redact d t)"
  by (simp add: redact_def redact_for_reset_input)

lemma run_calls_reset:
  "run_calls d cs = Some d' \<Longrightarrow> reset_cursors d' = reset_cursors d"
proof (induction cs arbitrary: d)
  case Nil
  then show ?case by simp
next
  case (Cons c cs)
  show ?case
  proof (cases c)
    case (CallScan t sp ctx clock)
    with Cons.prems obtain r d1 where s: "scan d t sp ctx clock = Some (r, d1)" and
      rc: "run_calls d1 cs = Some d'"
      by (auto split: option.splits)
    from Cons.IH [OF rc] scan_reset [OF s] show ?thesis by simp
  next
    case (CallHasLeak t)
    with Cons.prems have "run_calls (snd (hasLeak d t)) cs = Some d'" by simp
    from Cons.IH [OF this] hasLeak_reset [of d t] show ?thesis by simp
  next
    case (CallRedact t)
    with Cons.prems have "run_calls (snd (redact d t)) cs = Some d'" by simp
    from Cons.IH [OF this] redact_reset [of d t] show ?thesis by simp
  qed
qed

lemma same_cursorless_results:
  assumes "reset_cursors d' = reset_cursors d"
  shows "fst (hasLeak d' t) = fst (hasLeak d t)"
    and "map_option fst (scan d' t sp ctx clock) = map_option fst (scan d t sp ctx clock)"
    and "fst (redact d' t) = fst (redact d t)"
proof -
  from assms hasLeak_reset_input [of d' t] hasLeak_reset_input [of d t]
  show "fst (hasLeak d' t) = fst (hasLeak d t)" by simp
  from assms scan_reset_input [of d' t sp ctx clock] scan_reset_input [of d t sp ctx clock]
  show "map_option fst (scan d' t sp ctx clock) = map_option fst (scan d t sp ctx clock)" by simp
  from assms redact_reset_input [of d' t] redact_reset_input [of d t]
  show "fst (redact d' t) = fst (redact d t)" by simp
qed

lemma inj_on_names:
  "distinct (map name ps) \<Longrightarrow> p \<in> set ps \<Longrightarrow> q \<in> set ps \<Longrightarrow> name p = name q \<Longrightarrow> p = q"
  by (auto simp: distinct_map dest: inj_onD)

section \<open>The detector on the inputs\<close>

lemma eval_openrouter:
  "map_option (view_result \<circ> fst)
     (scan (LeakDetector []) (VStr openrouter_fixture) ''unknown'' Map.empty (\<lambda>k. []))
   = Some (True,
       [[VStr ''openrouter_key'', VStr ''CRITICAL'', VNum 0, VNum 73,
         VStr ''sk-o...[REDACTED 65 chars]...aaaa'', VStr ''unknown'', VStr []],
        [VStr ''openai_key'', VStr ''CRITICAL'', VNum 0, VNum 73,
         VStr ''sk-o...[REDACTED 65 chars]...aaaa'', VStr ''unknown'', VStr []]],
       VStr ''[LEAK_REDACTED:openrouter_key]'',
       Some ''LEAK DETECTED: 2 credential(s) found at unknown. Severities: CRITICAL. Types: openrouter_key, openai_key. Powered by 5warm.ai/stack'')"
  by code_simp

lemma eval_xai_override:
  "map_option (view_result \<circ> fst)
     (scan (LeakDetector []) (VStr xai_fixture) ''unknown'' [''severity'' \<mapsto> VStr ''LOW''] (\<lambda>k. []))
   = Some (True,
       [[VStr ''xai_key'', VStr ''LOW'', VNum 0, VNum 24,
         VStr ''xai-...[REDACTED 16 chars]...aaaa'', VStr ''unknown'', VStr []]],
       VStr ''[LEAK_REDACTED:xai_key]'',
       Some ''LEAK DETECTED: 1 credential(s) found at unknown. Severities: LOW. Types: xai_key. Powered by 5warm.ai/stack'')"
  by code_simp

lemma eval_xai:
  "map_option (view_result \<circ> fst)
     (scan (LeakDetector []) (VStr xai_fixture) ''unknown'' Map.empty (\<lambda>k. []))
   = Some (True,
       [[VStr ''xai_key'', VStr ''CRITICAL'', VNum 0, VNum 24,
         VStr ''xai-...[REDACTED 16 chars]...aaaa'', VStr ''unknown'', VStr []]],
       VStr ''[LEAK_REDACTED:xai_key]'',
       Some ''LEAK DETECTED: 1 credential(s) found at unknown. Severities: CRITICAL. Types: xai_key. Powered by 5warm.ai/stack'')"
  by code_simp

lemma eval_xai_twice:
  "map_option (view_result \<circ> fst)
     (scan (LeakDetector []) (VStr xai_twice) ''unknown'' Map.empty (\<lambda>k. []))
   = Some (True,
       [[VStr ''xai_key'', VStr ''CRITICAL'', VNum 0, VNum 24,
         VStr ''xai-...[REDACTED 16 chars]...aaaa'', VStr ''unknown'', VStr []],
        [VStr ''xai_key'', VStr ''CRITICAL'', VNum 25, VNum 24,
         VStr ''xai-...[REDACTED 16 chars]...aaaa'', VStr ''unknown'', VStr []]],
       VStr ''[LEAK_REDACTED:xai_key] [LEAK_REDACTED:xai_key]'',
       Some ''LEAK DETECTED: 2 credential(s) found at unknown. Severities: CRITICAL. Types: xai_key. Powered by 5warm.ai/stack'')"
  by code_simp

lemma eval_xai_hits:
  "hits (regex (builtin_patterns ! 3)) xai_twice = [(0, xai_fixture), (25, xai_fixture)]"
  by code_simp

lemma eval_xai_rule:
  "name (builtin_patterns ! 3) = ''xai_key'' \<and> severity (builtin_patterns ! 3) = ''CRITICAL''"
  by code_simp

lemma eval_tailscale_scan:
  "map_option (view_result \<circ> fst)
     (scan (LeakDetector []) (VStr tailscale_short) ''unknown'' Map.empty (\<lambda>k. []))
   = Some (False, [], VStr ''tskey-a-b'', None)"
  by code_simp

lemma eval_tailscale_hasLeak:
  "fst (hasLeak (LeakDetector []) (VStr tailscale_short))"
  by code_simp

lemma eval_tailscale_cursor:
  "map (\<lambda>p. lastIndex (regex p)) (snd (hasLeak (LeakDetector []) (VStr tailscale_short)))
   = [0, 0, 0, 0, 0, 0, 0, 0, 0, 0, 0, 0, 0, 9, 0, 0, 0, 0, 0, 0, 0, 0, 0, 0]"
  by code_simp

lemma eval_masked_redact:
  "fst (redact (LeakDetector []) (VStr masked_password)) = VStr masked_password"
  by code_simp

lemma eval_masked_residual:
  "residual (LeakDetector []) masked_password = [(0, masked_password)]"
  by code_simp

lemma eval_redis_once:
  "fst (redact (LeakDetector []) (VStr redis_password)) = VStr ''redis://pwd=*******ghij''"
  by code_simp

lemma eval_redis_twice:
  "fst (redact (LeakDetector []) (VStr ''redis://pwd=*******ghij'')) = VStr ''redi***************ghij''"
  by code_simp

lemma eval_xai_redact:
  "fst (redact (LeakDetector []) (VStr xai_fixture)) = VStr ''xai-****************aaaa''"
  by code_simp

lemma eval_xai_residual:
  "residual (LeakDetector []) ''xai-****************aaaa'' = []"
  by code_simp

lemma view_SomeE:
  assumes "map_option (view_result \<circ> fst) x = Some (lk, vs, rd, sm)"
  obtains r d' where "x = Some (r, d')" and "leaked r = lk" and "map view_match (matches r) = vs"
    and "redacted r = rd" and "summary r = sm"
  using assms by (cases x) (auto simp: view_result_def)

lemma view_match_fields:
  assumes "view_match m = [a, b, c, d, e, f, g]"
  shows "get_prop m ''pattern'' = a" and "get_prop m ''severity'' = b" and "get_prop m ''position'' = c"
    and "get_prop m ''length'' = d" and "get_prop m ''preview'' = e" and "get_prop m ''scanPoint'' = f"
    and "get_prop m ''timestamp'' = g"
  using assms by (simp_all add: view_match_def standard_fields_def)

lemma xai_rule_builtin:
  "builtin_patterns ! 3 \<in> set (LeakDetector [])"
  by (simp add: LeakDetector_def builtin_patterns_def)

lemma eval_mask_xai:
  "mask_value xai_fixture = ''xai-****************aaaa''"
  by code_simp

lemma eval_mask_masked:
  "mask_value masked_password = masked_password"
  by code_simp

chapter \<open>The properties\<close>

section \<open>Inputs that are not text\<close>

text \<open>
  C4.  For every input that is not a string (\<open>null\<close> and \<open>undefined\<close> among them) and
  for the empty string, every entry point returns its no-op result: \<open>scan\<close> returns
  \<open>{leaked: false, matches: [], redacted: input, summary: null}\<close>, \<open>hasLeak\<close> returns
  \<open>false\<close> and \<open>redact\<close> returns the input; none of them fails to return, and the
  detector is left as it was.
\<close>

theorem noop_on_non_text:
  "\<not> is_string v \<or> v = VStr [] \<Longrightarrow>
     scan d v scanPoint context clock
       = Some (\<lparr> leaked = False, matches = [], redacted = v, summary = None \<rparr>, d)
     \<and> hasLeak d v = (False, d)
     \<and> redact d v = (v, d)"
  by (cases v) (auto simp: scan_def hasLeak_def redact_def)

theorem noop_on_non_text_witness:
  "(scan (LeakDetector []) VNull ''unknown'' Map.empty (\<lambda>k. [])
       = Some (\<lparr> leaked = False, matches = [], redacted = VNull, summary = None \<rparr>, LeakDetector [])
     \<and> hasLeak (LeakDetector []) VNull = (False, LeakDetector [])
     \<and> redact (LeakDetector []) VNull = (VNull, LeakDetector []))
   \<and> (scan (LeakDetector []) (VStr []) ''unknown'' Map.empty (\<lambda>k. [])
       = Some (\<lparr> leaked = False, matches = [], redacted = VStr [], summary = None \<rparr>, LeakDetector [])
     \<and> hasLeak (LeakDetector []) (VStr []) = (False, LeakDetector [])
     \<and> redact (LeakDetector []) (VStr []) = (VStr [], LeakDetector []))"
  using noop_on_non_text [of VNull "LeakDetector []" "''unknown''" Map.empty "\<lambda>k. []"]
        noop_on_non_text [of "VStr []" "LeakDetector []" "''unknown''" Map.empty "\<lambda>k. []"]
  by simp

section \<open>The fields of a Match\<close>

text \<open>
  C1, as the code has it.  The claim is that a key of \<open>context\<close> never overrides a
  standard field of a Match.  \<open>scan\<close> spreads \<open>context\<close> after the standard properties,
  so a key of \<open>context\<close> with the name of a standard field replaces it: with the context
  \<open>{severity: 'LOW'}\<close> the Match of the xAI key, a rule of severity CRITICAL, has the
  severity LOW.
\<close>

theorem context_overrides_severity:
  "map_option (\<lambda>x. map (\<lambda>m. (get_prop m ''pattern'', get_prop m ''severity'')) (matches (fst x)))
     (scan (LeakDetector []) (VStr xai_fixture) ''unknown'' [''severity'' \<mapsto> VStr ''LOW''] (\<lambda>k. []))
   = Some [(VStr ''xai_key'', VStr ''LOW'')]
   \<and> severity (builtin_patterns ! 3) = ''CRITICAL'' \<and> name (builtin_patterns ! 3) = ''xai_key''"
proof -
  from eval_xai_override obtain r d' where
    s: "scan (LeakDetector []) (VStr xai_fixture) ''unknown'' [''severity'' \<mapsto> VStr ''LOW''] (\<lambda>k. []) = Some (r, d')"
    and v: "map view_match (matches r) = [[VStr ''xai_key'', VStr ''LOW'', VNum 0, VNum 24,
         VStr ''xai-...[REDACTED 16 chars]...aaaa'', VStr ''unknown'', VStr []]]"
    by (rule view_SomeE)
  from v obtain m where m: "matches r = [m]" and vm: "view_match m = [VStr ''xai_key'', VStr ''LOW'', VNum 0, VNum 24,
         VStr ''xai-...[REDACTED 16 chars]...aaaa'', VStr ''unknown'', VStr []]"
    by auto
  from s m view_match_fields(1,2) [OF vm] eval_xai_rule show ?thesis by simp
qed

text \<open>
  C1, amended.  For every text and every context, each Match of the result is made from
  one match of one rule, of at least 12 code units: for every property name that is not
  a key of \<open>context\<close> the Match has what the engine computed for that match (rule name,
  severity, position, length, preview, scanPoint, timestamp, and nothing for another
  name), and for every key of \<open>context\<close> it has the value that \<open>context\<close> gives.
\<close>

theorem scan_match_fields:
  "scan d (VStr S) scanPoint context clock = Some (r, d') \<Longrightarrow> m \<in> set (matches r) \<Longrightarrow>
   \<exists>p\<in>set d. \<exists>h\<in>set (hits (regex p) S). \<exists>k.
     12 \<le> length (snd h) \<and> snd h = take (length (snd h)) (drop (fst h) S) \<and>
     (\<forall>f. m f = (case context f of
                   None \<Rightarrow> standard_match p (fst h) (snd h) scanPoint (clock k) f
                 | Some x \<Rightarrow> Some x))"
proof -
  assume "scan d (VStr S) scanPoint context clock = Some (r, d')" and "m \<in> set (matches r)"
  from scan_match_origin [OF this] obtain p h k where
    "p \<in> set d" "h \<in> set (hits (regex p) S)" "12 \<le> length (snd h)"
    "m = new_match p (fst h) (snd h) scanPoint (clock k) context"
    by blast
  with hits_substring [of h "regex p" S] show ?thesis
    by (auto simp: new_match_field)
qed

theorem scan_match_fields_witness:
  "\<exists>r d' m. scan (LeakDetector []) (VStr xai_fixture) ''unknown'' [''severity'' \<mapsto> VStr ''LOW''] (\<lambda>k. []) = Some (r, d')
     \<and> m \<in> set (matches r)
     \<and> (\<exists>p\<in>set (LeakDetector []). \<exists>h\<in>set (hits (regex p) xai_fixture).
           12 \<le> length (snd h) \<and> snd h = take (length (snd h)) (drop (fst h) xai_fixture) \<and>
           (\<forall>f. m f = (case [''severity'' \<mapsto> VStr ''LOW''] f of
                         None \<Rightarrow> standard_match p (fst h) (snd h) ''unknown'' [] f
                       | Some x \<Rightarrow> Some x)))"
proof -
  from eval_xai_override obtain r d' where
    s: "scan (LeakDetector []) (VStr xai_fixture) ''unknown'' [''severity'' \<mapsto> VStr ''LOW''] (\<lambda>k. []) = Some (r, d')"
    and v: "map view_match (matches r) = [[VStr ''xai_key'', VStr ''LOW'', VNum 0, VNum 24,
         VStr ''xai-...[REDACTED 16 chars]...aaaa'', VStr ''unknown'', VStr []]]"
    by (rule view_SomeE)
  from v obtain m where m: "m \<in> set (matches r)" by auto
  from scan_match_fields [OF s m] s m show ?thesis by blast
qed

section \<open>\<open>hasLeak\<close> and \<open>scan\<close>\<close>

text \<open>
  C2, at the input that separates the code from the claim.  The claim is that
  \<open>hasLeak(text)\<close> is true exactly when \<open>scan(text).leaked\<close> is, and false for every
  string of fewer than 12 code units.  \<open>hasLeak\<close> tests each pattern and has no length
  test: on the 9 code units \<open>tskey-a-b\<close> the Tailscale pattern matches, \<open>hasLeak\<close>
  returns true and \<open>scan\<close> reports no leak.
\<close>

theorem hasLeak_ignores_floor:
  "fst (hasLeak (LeakDetector []) (VStr tailscale_short))
   \<and> map_option (leaked \<circ> fst) (scan (LeakDetector []) (VStr tailscale_short) ''unknown'' Map.empty (\<lambda>k. []))
       = Some False
   \<and> length tailscale_short = 9"
proof -
  from eval_tailscale_scan obtain r d' where
    "scan (LeakDetector []) (VStr tailscale_short) ''unknown'' Map.empty (\<lambda>k. []) = Some (r, d')"
    and "leaked r = False"
    by (rule view_SomeE)
  with eval_tailscale_hasLeak show ?thesis by (simp add: tailscale_short_def)
qed

section \<open>Detection by the built-in rules\<close>

text \<open>
  C3, as the code has it.  The claim is that a literal of the shape of a built-in rule
  gives exactly one match, and that \<open>sk-or-v1-\<close> with 64 hexadecimal digits gives
  exactly one match, of the rule \<open>openrouter_key\<close>.  The pattern of \<open>openai_key\<close>,
  \<open>sk-(?:proj-)?[a-zA-Z0-9_-]{48,}\<close>, matches that key too: the result has two matches.
\<close>

theorem openrouter_fixture_two_matches:
  "map_option (\<lambda>x. map (\<lambda>m. (get_prop m ''pattern'', get_prop m ''severity'', get_prop m ''position''))
                   (matches (fst x)))
     (scan (LeakDetector []) (VStr openrouter_fixture) ''unknown'' Map.empty (\<lambda>k. []))
   = Some [(VStr ''openrouter_key'', VStr ''CRITICAL'', VNum 0), (VStr ''openai_key'', VStr ''CRITICAL'', VNum 0)]"
proof -
  from eval_openrouter obtain r d' where
    s: "scan (LeakDetector []) (VStr openrouter_fixture) ''unknown'' Map.empty (\<lambda>k. []) = Some (r, d')"
    and v: "map view_match (matches r) =
       [[VStr ''openrouter_key'', VStr ''CRITICAL'', VNum 0, VNum 73,
         VStr ''sk-o...[REDACTED 65 chars]...aaaa'', VStr ''unknown'', VStr []],
        [VStr ''openai_key'', VStr ''CRITICAL'', VNum 0, VNum 73,
         VStr ''sk-o...[REDACTED 65 chars]...aaaa'', VStr ''unknown'', VStr []]]"
    by (rule view_SomeE)
  from v obtain m1 m2 where m: "matches r = [m1, m2]"
    and v1: "view_match m1 = [VStr ''openrouter_key'', VStr ''CRITICAL'', VNum 0, VNum 73,
         VStr ''sk-o...[REDACTED 65 chars]...aaaa'', VStr ''unknown'', VStr []]"
    and v2: "view_match m2 = [VStr ''openai_key'', VStr ''CRITICAL'', VNum 0, VNum 73,
         VStr ''sk-o...[REDACTED 65 chars]...aaaa'', VStr ''unknown'', VStr []]"
    by auto
  from s m view_match_fields(1,2,3) [OF v1] view_match_fields(1,2,3) [OF v2] show ?thesis by simp
qed

text \<open>
  C3, amended.  For every built-in rule and every text in which the rule has a match of
  at least 12 code units, \<open>scan\<close> on the detector with the built-in rules (with a
  context that has none of the keys \<open>pattern\<close>, \<open>severity\<close>, \<open>position\<close>) returns,
  reports a leak, and has a Match with the name of the rule, the severity that the table
  declares for it and the position of that match; the matches of other rules come with
  it.  The key \<open>sk-or-v1-\<close> and 64 times \<open>a\<close> gives two matches at position 0, both
  CRITICAL: \<open>openrouter_key\<close>, then \<open>openai_key\<close>.
\<close>

theorem builtin_hit_reported:
  "(p \<in> set builtin_patterns \<and> h \<in> set (hits (regex p) S) \<and> 12 \<le> length (snd h) \<and>
    context ''pattern'' = None \<and> context ''severity'' = None \<and> context ''position'' = None \<longrightarrow>
    (\<exists>r d'. scan (LeakDetector []) (VStr S) scanPoint context clock = Some (r, d') \<and> leaked r \<and>
       (\<exists>m\<in>set (matches r).
          get_prop m ''pattern'' = VStr (name p) \<and>
          get_prop m ''severity'' = VStr (severity p) \<and>
          get_prop m ''position'' = VNum (int (fst h)))))
   \<and> map_option (\<lambda>x. map (\<lambda>m. (get_prop m ''pattern'', get_prop m ''severity'', get_prop m ''position''))
                   (matches (fst x)))
        (scan (LeakDetector []) (VStr openrouter_fixture) ''unknown'' Map.empty (\<lambda>k. []))
      = Some [(VStr ''openrouter_key'', VStr ''CRITICAL'', VNum 0), (VStr ''openai_key'', VStr ''CRITICAL'', VNum 0)]"
proof (intro conjI impI)
  assume a: "p \<in> set builtin_patterns \<and> h \<in> set (hits (regex p) S) \<and> 12 \<le> length (snd h) \<and>
    context ''pattern'' = None \<and> context ''severity'' = None \<and> context ''position'' = None"
  have "\<exists>r d'. scan (LeakDetector []) (VStr S) scanPoint context clock = Some (r, d')"
    by (rule scan_text_total) (simp add: LeakDetector_def builtin_productive)
  then obtain r d' where s: "scan (LeakDetector []) (VStr S) scanPoint context clock = Some (r, d')"
    by blast
  from a have p: "p \<in> set (LeakDetector [])" by (simp add: LeakDetector_def)
  from scan_reports_hit [OF s p] a obtain m q g k where
    m: "m \<in> set (matches r)" and q: "q \<in> set (LeakDetector [])"
    and mq: "m = new_match q (fst g) (snd g) scanPoint (clock k) context"
    and n: "name q = name p" and f: "fst g = fst h"
    by blast
  from q p n have "q = p"
    by (simp add: LeakDetector_def inj_on_names [OF builtin_names_distinct])
  with mq f a have "get_prop m ''pattern'' = VStr (name p) \<and>
      get_prop m ''severity'' = VStr (severity p) \<and>
      get_prop m ''position'' = VNum (int (fst h))"
    by (simp add: get_prop_new_match get_prop_standard)
  moreover from m s have "leaked r"
    by (cases "S = []") (auto simp: scan_non_text elim!: scan_textE)
  ultimately show "\<exists>r d'. scan (LeakDetector []) (VStr S) scanPoint context clock = Some (r, d') \<and> leaked r \<and>
       (\<exists>m\<in>set (matches r).
          get_prop m ''pattern'' = VStr (name p) \<and>
          get_prop m ''severity'' = VStr (severity p) \<and>
          get_prop m ''position'' = VNum (int (fst h)))"
    using s m by blast
next
  from eval_openrouter obtain r d' where
    s: "scan (LeakDetector []) (VStr openrouter_fixture) ''unknown'' Map.empty (\<lambda>k. []) = Some (r, d')"
    and v: "map view_match (matches r) =
       [[VStr ''openrouter_key'', VStr ''CRITICAL'', VNum 0, VNum 73,
         VStr ''sk-o...[REDACTED 65 chars]...aaaa'', VStr ''unknown'', VStr []],
        [VStr ''openai_key'', VStr ''CRITICAL'', VNum 0, VNum 73,
         VStr ''sk-o...[REDACTED 65 chars]...aaaa'', VStr ''unknown'', VStr []]]"
    by (rule view_SomeE)
  from v obtain m1 m2 where m: "matches r = [m1, m2]"
    and v1: "view_match m1 = [VStr ''openrouter_key'', VStr ''CRITICAL'', VNum 0, VNum 73,
         VStr ''sk-o...[REDACTED 65 chars]...aaaa'', VStr ''unknown'', VStr []]"
    and v2: "view_match m2 = [VStr ''openai_key'', VStr ''CRITICAL'', VNum 0, VNum 73,
         VStr ''sk-o...[REDACTED 65 chars]...aaaa'', VStr ''unknown'', VStr []]"
    by auto
  from s m view_match_fields(1,2,3) [OF v1] view_match_fields(1,2,3) [OF v2]
  show "map_option (\<lambda>x. map (\<lambda>m. (get_prop m ''pattern'', get_prop m ''severity'', get_prop m ''position''))
                   (matches (fst x)))
        (scan (LeakDetector []) (VStr openrouter_fixture) ''unknown'' Map.empty (\<lambda>k. []))
      = Some [(VStr ''openrouter_key'', VStr ''CRITICAL'', VNum 0), (VStr ''openai_key'', VStr ''CRITICAL'', VNum 0)]"
    by simp
qed

theorem builtin_hit_reported_witness:
  "\<exists>r d'. scan (LeakDetector []) (VStr xai_twice) ''unknown'' Map.empty (\<lambda>k. []) = Some (r, d') \<and> leaked r \<and>
     (\<exists>m\<in>set (matches r).
        get_prop m ''pattern'' = VStr ''xai_key'' \<and>
        get_prop m ''severity'' = VStr ''CRITICAL'' \<and>
        get_prop m ''position'' = VNum 25)"
proof -
  have "builtin_patterns ! 3 \<in> set builtin_patterns"
    using xai_rule_builtin by (simp add: LeakDetector_def)
  moreover have "(25, xai_fixture) \<in> set (hits (regex (builtin_patterns ! 3)) xai_twice)"
    by (simp add: eval_xai_hits)
  moreover have "12 \<le> length (snd (25 :: nat, xai_fixture))"
    by (simp add: xai_fixture_def)
  ultimately show ?thesis
    using builtin_hit_reported [of "builtin_patterns ! 3" "(25, xai_fixture)" xai_twice Map.empty
        "''unknown''" "\<lambda>k. []"] eval_xai_rule
    by simp
qed

section \<open>The floor of 12 code units\<close>

text \<open>
  C5.  For every text, every Match of the result of \<open>scan\<close> comes from a match of a rule
  that has at least 12 code units, and its \<open>length\<close> is the length of that match: the
  shorter matches are dropped before they become Matches.  (The \<open>length\<close> of the Match
  is read where \<open>context\<close> has no key \<open>length\<close>, as in \<open>scan(text)\<close>; what a key of
  \<open>context\<close> does to a field is C1.)
\<close>

theorem scan_match_length:
  "scan d (VStr S) scanPoint context clock = Some (r, d') \<Longrightarrow> m \<in> set (matches r) \<Longrightarrow>
   context ''length'' = None \<Longrightarrow>
   \<exists>p\<in>set d. \<exists>h\<in>set (hits (regex p) S).
     12 \<le> length (snd h) \<and> get_prop m ''length'' = VNum (int (length (snd h)))"
proof -
  assume "scan d (VStr S) scanPoint context clock = Some (r, d')" and "m \<in> set (matches r)"
    and c: "context ''length'' = None"
  from scan_match_origin [OF this(1,2)] obtain p h k where
    "p \<in> set d" "h \<in> set (hits (regex p) S)" "12 \<le> length (snd h)"
    "m = new_match p (fst h) (snd h) scanPoint (clock k) context"
    by blast
  with c show ?thesis
    by (auto simp: get_prop_new_match get_prop_standard)
qed

theorem scan_match_length_witness:
  "\<exists>r d' m. scan (LeakDetector []) (VStr xai_fixture) ''unknown'' Map.empty (\<lambda>k. []) = Some (r, d')
     \<and> m \<in> set (matches r)
     \<and> get_prop m ''length'' = VNum 24
     \<and> (\<exists>p\<in>set (LeakDetector []). \<exists>h\<in>set (hits (regex p) xai_fixture).
           12 \<le> length (snd h) \<and> get_prop m ''length'' = VNum (int (length (snd h))))"
proof -
  from eval_xai obtain r d' where
    s: "scan (LeakDetector []) (VStr xai_fixture) ''unknown'' Map.empty (\<lambda>k. []) = Some (r, d')"
    and v: "map view_match (matches r) = [[VStr ''xai_key'', VStr ''CRITICAL'', VNum 0, VNum 24,
         VStr ''xai-...[REDACTED 16 chars]...aaaa'', VStr ''unknown'', VStr []]]"
    by (rule view_SomeE)
  from v obtain m where m: "m \<in> set (matches r)" and vm: "view_match m = [VStr ''xai_key'', VStr ''CRITICAL'', VNum 0, VNum 24,
         VStr ''xai-...[REDACTED 16 chars]...aaaa'', VStr ''unknown'', VStr []]"
    by auto
  have "Map.empty ''length'' = (None :: jsval option)" by simp
  from scan_match_length [OF s m this]
  have "\<exists>p\<in>set (LeakDetector []). \<exists>h\<in>set (hits (regex p) xai_fixture).
      12 \<le> length (snd h) \<and> get_prop m ''length'' = VNum (int (length (snd h)))" .
  with s m view_match_fields(4) [OF vm] show ?thesis by blast
qed

section \<open>No two Matches of one rule at one position\<close>

text \<open>
  C6.  For every text, no two Matches of the result of \<open>scan\<close> have the same rule name
  and the same position.  When a rule has two matches of at least 12 code units at two
  different positions (the same secret twice, for one), the result has a Match for each,
  with the name of the rule and the position of the match (\<open>context\<close> having no key
  \<open>pattern\<close> or \<open>position\<close>).
\<close>

theorem scan_matches_unique:
  "(scan d (VStr S) scanPoint context clock = Some (r, d') \<longrightarrow> distinct (map match_key (matches r)))
   \<and> (scan d (VStr S) scanPoint context clock = Some (r, d') \<and> p \<in> set d \<and>
      h \<in> set (hits (regex p) S) \<and> g \<in> set (hits (regex p) S) \<and>
      12 \<le> length (snd h) \<and> 12 \<le> length (snd g) \<and> fst h \<noteq> fst g \<and>
      context ''pattern'' = None \<and> context ''position'' = None \<longrightarrow>
      (\<exists>m\<in>set (matches r). \<exists>n\<in>set (matches r). m \<noteq> n \<and>
         match_key m = (VStr (name p), VNum (int (fst h))) \<and>
         match_key n = (VStr (name p), VNum (int (fst g)))))"
proof (intro conjI impI)
  assume s: "scan d (VStr S) scanPoint context clock = Some (r, d')"
  show "distinct (map match_key (matches r))"
  proof (cases "S = []")
    case True
    with s scan_non_text [of "VStr S" d scanPoint "context" clock] show ?thesis by auto
  next
    case False
    from s False obtain acc where "scan_for d S scanPoint context clock ([], S) = Some (acc, d')"
      and "matches r = unique_matches (fst acc)"
      by (rule scan_textE)
    then show ?thesis by (simp add: unique_matches_distinct)
  qed
next
  assume a: "scan d (VStr S) scanPoint context clock = Some (r, d') \<and> p \<in> set d \<and>
      h \<in> set (hits (regex p) S) \<and> g \<in> set (hits (regex p) S) \<and>
      12 \<le> length (snd h) \<and> 12 \<le> length (snd g) \<and> fst h \<noteq> fst g \<and>
      context ''pattern'' = None \<and> context ''position'' = None"
  have key: "\<exists>m\<in>set (matches r). match_key m = (VStr (name p), VNum (int (fst e)))"
    if e: "e \<in> set (hits (regex p) S)" "12 \<le> length (snd e)" for e
  proof -
    from a have s: "scan d (VStr S) scanPoint context clock = Some (r, d')" and p: "p \<in> set d"
      and c: "context ''pattern'' = None" "context ''position'' = None" by auto
    from scan_reports_hit [OF s p e c] obtain m q e' k where
      m: "m \<in> set (matches r)" and mq: "m = new_match q (fst e') (snd e') scanPoint (clock k) context"
      and eq: "name q = name p" "fst e' = fst e"
      by blast
    from mq eq c have "match_key m = (VStr (name p), VNum (int (fst e)))"
      by (simp add: match_key_def get_prop_new_match get_prop_standard)
    with m show ?thesis by blast
  qed
  from a key [of h] obtain m where m: "m \<in> set (matches r)" "match_key m = (VStr (name p), VNum (int (fst h)))"
    by auto
  from a key [of g] obtain n where n: "n \<in> set (matches r)" "match_key n = (VStr (name p), VNum (int (fst g)))"
    by auto
  from a m(2) n(2) have "m \<noteq> n" by auto
  with m n show "\<exists>m\<in>set (matches r). \<exists>n\<in>set (matches r). m \<noteq> n \<and>
         match_key m = (VStr (name p), VNum (int (fst h))) \<and>
         match_key n = (VStr (name p), VNum (int (fst g)))"
    by blast
qed

theorem scan_matches_unique_witness:
  "\<exists>r d'. scan (LeakDetector []) (VStr xai_twice) ''unknown'' Map.empty (\<lambda>k. []) = Some (r, d')
     \<and> distinct (map match_key (matches r))
     \<and> map match_key (matches r) = [(VStr ''xai_key'', VNum 0), (VStr ''xai_key'', VNum 25)]
     \<and> (\<exists>m\<in>set (matches r). \<exists>n\<in>set (matches r). m \<noteq> n \<and>
          match_key m = (VStr ''xai_key'', VNum 0) \<and> match_key n = (VStr ''xai_key'', VNum 25))"
proof -
  from eval_xai_twice obtain r d' where
    s: "scan (LeakDetector []) (VStr xai_twice) ''unknown'' Map.empty (\<lambda>k. []) = Some (r, d')"
    and v: "map view_match (matches r) =
       [[VStr ''xai_key'', VStr ''CRITICAL'', VNum 0, VNum 24,
         VStr ''xai-...[REDACTED 16 chars]...aaaa'', VStr ''unknown'', VStr []],
        [VStr ''xai_key'', VStr ''CRITICAL'', VNum 25, VNum 24,
         VStr ''xai-...[REDACTED 16 chars]...aaaa'', VStr ''unknown'', VStr []]]"
    by (rule view_SomeE)
  from v obtain m1 m2 where m: "matches r = [m1, m2]"
    and v1: "view_match m1 = [VStr ''xai_key'', VStr ''CRITICAL'', VNum 0, VNum 24,
         VStr ''xai-...[REDACTED 16 chars]...aaaa'', VStr ''unknown'', VStr []]"
    and v2: "view_match m2 = [VStr ''xai_key'', VStr ''CRITICAL'', VNum 25, VNum 24,
         VStr ''xai-...[REDACTED 16 chars]...aaaa'', VStr ''unknown'', VStr []]"
    by auto
  have keys: "map match_key (matches r) = [(VStr ''xai_key'', VNum 0), (VStr ''xai_key'', VNum 25)]"
    using m view_match_fields(1,3) [OF v1] view_match_fields(1,3) [OF v2]
    by (simp add: match_key_def)
  have h: "(0, xai_fixture) \<in> set (hits (regex (builtin_patterns ! 3)) xai_twice)"
    and g: "(25, xai_fixture) \<in> set (hits (regex (builtin_patterns ! 3)) xai_twice)"
    by (simp_all add: eval_xai_hits)
  have l: "12 \<le> length xai_fixture" by (simp add: xai_fixture_def)
  from scan_matches_unique [of "LeakDetector []" xai_twice "''unknown''" Map.empty "\<lambda>k. []" r d'
      "builtin_patterns ! 3" "(0, xai_fixture)" "(25, xai_fixture)"]
    s xai_rule_builtin h g l eval_xai_rule keys
  show ?thesis by simp
qed

section \<open>\<open>scan\<close> without a leak\<close>

text \<open>
  C10.  For every text, when \<open>scan\<close> reports no leak the field \<open>redacted\<close> of the
  result is the text as it was given and \<open>summary\<close> is \<open>null\<close>; and \<open>scan\<close>
  replaces nothing in \<open>redacted\<close> when no rule has a match of at least 12 code units.
  (The first part is for a context that does not give \<open>NaN\<close> to the keys \<open>pattern\<close> or
  \<open>position\<close>, as \<open>scan(text)\<close> has it: with \<open>NaN\<close> there no Match equals itself
  and all are removed as duplicates.)
\<close>

theorem scan_unchanged_without_leak:
  "(scan d t scanPoint context clock = Some (r, d') \<and> \<not> leaked r \<and>
      context ''pattern'' \<noteq> Some VNaN \<and> context ''position'' \<noteq> Some VNaN \<longrightarrow>
      redacted r = t \<and> summary r = None)
   \<and> (scan d (VStr S) scanPoint context clock = Some (r, d') \<and>
      (\<forall>p\<in>set d. \<forall>h\<in>set (hits (regex p) S). length (snd h) < 12) \<longrightarrow>
      \<not> leaked r \<and> redacted r = VStr S \<and> summary r = None)"
proof (intro conjI impI)
  assume "scan d t scanPoint context clock = Some (r, d') \<and> \<not> leaked r \<and>
      context ''pattern'' \<noteq> Some VNaN \<and> context ''position'' \<noteq> Some VNaN"
  then show "redacted r = t" and "summary r = None"
    using scan_not_leaked [of d t scanPoint "context" clock r d'] by auto
next
  assume a: "scan d (VStr S) scanPoint context clock = Some (r, d') \<and>
      (\<forall>p\<in>set d. \<forall>h\<in>set (hits (regex p) S). length (snd h) < 12)"
  have "\<not> leaked r \<and> redacted r = VStr S \<and> summary r = None"
  proof (cases "S = []")
    case True
    with a scan_non_text [of "VStr S" d scanPoint "context" clock] show ?thesis by auto
  next
    case False
    with a obtain acc where sf: "scan_for d S scanPoint context clock ([], S) = Some (acc, d')"
      and ms: "matches r = unique_matches (fst acc)"
      and lk: "leaked r = (unique_matches (fst acc) \<noteq> [])"
      and rd: "redacted r = VStr (snd acc)"
      and sm: "summary r = (if unique_matches (fst acc) \<noteq> [] then Some (summary_of (unique_matches (fst acc)) scanPoint) else None)"
      by (auto elim: scan_textE)
    have "fst acc = []"
    proof (rule ccontr)
      assume "fst acc \<noteq> []"
      then obtain m where "m \<in> set (fst acc)" by (cases "fst acc") auto
      from scan_for_origin [OF sf this] a show False by fastforce
    qed
    with scan_for_frame [OF sf] lk rd sm show ?thesis by simp
  qed
  then show "\<not> leaked r" and "redacted r = VStr S" and "summary r = None" by auto
qed

theorem scan_unchanged_without_leak_witness:
  "\<exists>r d'. scan (LeakDetector []) (VStr tailscale_short) ''unknown'' Map.empty (\<lambda>k. []) = Some (r, d')
     \<and> \<not> leaked r \<and> redacted r = VStr tailscale_short \<and> summary r = None"
proof -
  from eval_tailscale_scan obtain r d' where
    s: "scan (LeakDetector []) (VStr tailscale_short) ''unknown'' Map.empty (\<lambda>k. []) = Some (r, d')"
    and l: "leaked r = False"
    by (rule view_SomeE)
  from scan_unchanged_without_leak [of "LeakDetector []" "VStr tailscale_short" "''unknown''" Map.empty
      "\<lambda>k. []" r d'] s l
  show ?thesis by simp
qed

section \<open>The cursors of the patterns between calls\<close>

text \<open>
  C9.  Every operation is stateless from call to call: after any sequence of calls of
  \<open>scan\<close>, \<open>hasLeak\<close> and \<open>redact\<close> on a detector, \<open>hasLeak\<close>, \<open>scan\<close> and
  \<open>redact\<close> return on every input what they return on the detector before those calls.
  The calls leave search cursors behind in the RegExp objects; each call resets the
  cursor of a pattern before it uses the pattern.
\<close>

theorem calls_do_not_interfere:
  "run_calls d calls = Some d' \<Longrightarrow>
     fst (hasLeak d' t) = fst (hasLeak d t)
     \<and> map_option fst (scan d' t scanPoint context clock) = map_option fst (scan d t scanPoint context clock)
     \<and> fst (redact d' t) = fst (redact d t)"
proof -
  assume "run_calls d calls = Some d'"
  then have "reset_cursors d' = reset_cursors d" by (rule run_calls_reset)
  from same_cursorless_results [OF this] show ?thesis by simp
qed

theorem calls_do_not_interfere_witness:
  "run_calls (LeakDetector []) [CallHasLeak (VStr tailscale_short)]
     = Some (snd (hasLeak (LeakDetector []) (VStr tailscale_short)))
   \<and> map (\<lambda>p. lastIndex (regex p)) (snd (hasLeak (LeakDetector []) (VStr tailscale_short)))
     = [0, 0, 0, 0, 0, 0, 0, 0, 0, 0, 0, 0, 0, 9, 0, 0, 0, 0, 0, 0, 0, 0, 0, 0]
   \<and> fst (hasLeak (snd (hasLeak (LeakDetector []) (VStr tailscale_short))) (VStr tailscale_short))
   \<and> map_option fst (scan (snd (hasLeak (LeakDetector []) (VStr tailscale_short))) (VStr tailscale_short)
        ''unknown'' Map.empty (\<lambda>k. []))
     = map_option fst (scan (LeakDetector []) (VStr tailscale_short) ''unknown'' Map.empty (\<lambda>k. []))
   \<and> fst (redact (snd (hasLeak (LeakDetector []) (VStr tailscale_short))) (VStr tailscale_short))
     = fst (redact (LeakDetector []) (VStr tailscale_short))"
proof -
  have "run_calls (LeakDetector []) [CallHasLeak (VStr tailscale_short)]
     = Some (snd (hasLeak (LeakDetector []) (VStr tailscale_short)))"
    by simp
  from calls_do_not_interfere [OF this, of "VStr tailscale_short" "''unknown''" Map.empty "\<lambda>k. []"]
    eval_tailscale_hasLeak eval_tailscale_cursor
  show ?thesis by simp
qed

end
